theory Spec2Isabelle
  imports Main "HOL-Library.Sublist"
begin

section \<open>The test scheduler of \<^verbatim>\<open>src/driver/runner.ts\<close>\<close>

text \<open>
  The runner walks a tree of suites, runs hooks and tests and emits lifecycle events.
  It is written in continuation-passing style on a single thread: every function ends by
  calling its continuation \<^verbatim>\<open>fn\<close>. The embedding turns each of them into a function
  from the runner to the runner at the moment \<^verbatim>\<open>fn\<close> is called, together with the
  arguments \<^verbatim>\<open>fn\<close> receives. \<^verbatim>\<open>Runner.immediately\<close> only defers a continuation
  to the next tick, so it is the identity here.

  Objects are split field-wise. The immutable part of a suite (title, bail flag, hooks,
  child suites) is a datatype, the immutable part of a test is a record, and every field
  the runner assigns during a run (\<^verbatim>\<open>pending\<close>, \<^verbatim>\<open>state\<close>, \<^verbatim>\<open>suite.tests\<close>)
  is a map from the identity of the object to the value, kept in the runner. A reference to
  a suite is the suite followed by its chain of parents, so that \<^verbatim>\<open>suite.parent\<close> is
  the tail of the reference and \<^verbatim>\<open>undefined\<close> is the empty list.

  Not modelled: timers, the \<^verbatim>\<open>error\<close> events of a runnable, uncaught exceptions of the
  process, the stack string of an error, the titles of hooks, \<^verbatim>\<open>hook.error()\<close> (nothing
  under \<^verbatim>\<open>src/\<close> sets it) and the listeners that reporters add.
\<close>

subsection \<open>Errors\<close>

text \<open>
  A thrown value is either an error (an \<^verbatim>\<open>Error\<close> or an object with a string
  \<^verbatim>\<open>message\<close>) or anything else; the latter carries what \<^verbatim>\<open>utils.canonicalType\<close>
  and \<^verbatim>\<open>utils.stringify\<close> make of it. These are the values that have properties:
  \<^verbatim>\<open>err.code\<close> can be read, and is \<^verbatim>\<open>undefined\<close> where the value has none.
\<close>

datatype thrown =
    ErrorObj (ecode: "string option") (emessage: string)
  | NonError (ecode: "string option") (ctype: string) (repr: string)

text \<open>
  The error argument of \<^verbatim>\<open>fail\<close> is any value. \<^verbatim>\<open>undefined\<close> and \<^verbatim>\<open>null\<close>
  have no properties, reading one throws a \<^verbatim>\<open>TypeError\<close>; they carry what
  \<^verbatim>\<open>utils.canonicalType\<close> and \<^verbatim>\<open>utils.stringify\<close> make of them. The callbacks of
  the runner test their error for truthiness before they pass it on, so the error they pass
  is a value with properties.
\<close>

datatype jsvalue = Nullish (ntype: string) (nrepr: string) | Defined (defined: thrown)

text \<open>The ways the chain of continuations ends without calling its continuation: an error
  is thrown, a property of \<^verbatim>\<open>undefined\<close> is read, or a function returns without
  calling its continuation.\<close>

datatype halt = Throw thrown | TypeError | Stalled

text \<open>Modelled from the spec: the error codes and typed constructors of the missing
  \<^verbatim>\<open>errors\<close> module (multiple-completion, unsupported-operation, fatal-internal-error).\<close>

definition MULTIPLE_DONE :: string where
  "MULTIPLE_DONE = ''ERR_MOCHA_MULTIPLE_DONE''"

definition UNSUPPORTED :: string where
  "UNSUPPORTED = ''ERR_MOCHA_UNSUPPORTED''"

definition FATAL :: string where
  "FATAL = ''ERR_MOCHA_FATAL''"

definition createUnsupportedError :: "string \<Rightarrow> thrown" where
  "createUnsupportedError msg = ErrorObj (Some UNSUPPORTED) msg"

definition createFatalError :: "string \<Rightarrow> thrown \<Rightarrow> thrown" where
  "createFatalError msg v = ErrorObj (Some FATAL) msg"

definition newError :: "string \<Rightarrow> thrown" where
  "newError msg = ErrorObj None msg"

fun isError :: "jsvalue \<Rightarrow> bool" where
  "isError (Defined (ErrorObj c m)) = True"
| "isError (Defined (NonError c ty r)) = False"
| "isError (Nullish ty r) = False"

fun thrown2Error :: "jsvalue \<Rightarrow> thrown" where
  "thrown2Error (Defined (NonError c ty r)) =
     newError (''the '' @ ty @ '' '' @ r @ '' was thrown, throw an Error :)'')"
| "thrown2Error (Defined (ErrorObj c m)) =
     newError (''the error '' @ m @ '' was thrown, throw an Error :)'')"
| "thrown2Error (Nullish ty r) =
     newError (''the '' @ ty @ '' '' @ r @ '' was thrown, throw an Error :)'')"

subsection \<open>Runnables, suites, events\<close>

datatype hook_kind = BeforeAll | AfterAll | BeforeEach | AfterEach

datatype run_state = Idle | Running | Stopped

datatype rstate = Unrun | Passed | Failed | Pending

text \<open>What the body of a runnable does when it is run: it completes, it completes with an
  error, or it calls \<^verbatim>\<open>this.skip()\<close>. A body acts on the ambient world \<open>'w\<close>.\<close>

datatype outcome = Ok | Err thrown | Skip

record 'w hook =
  htitle :: string
  hfn :: "'w \<Rightarrow> outcome \<times> 'w"
  hallowed :: "string list"

datatype 'w suite = Suite
  (sid: nat) (stitle: string) (sbail: bool) (sroot: bool)
  (beforeAll: "'w hook list") (afterAll: "'w hook list")
  (beforeEach: "'w hook list") (afterEach: "'w hook list")
  (suites: "'w suite list")

record 'w test =
  tid :: nat
  ttitle :: string
  tparent :: "'w suite list"
  tretries :: int
  tcurrentRetry :: int
  tretriedTest :: "nat option"
  tfn :: "'w \<Rightarrow> outcome \<times> 'w"
  tallowed :: "string list"

text \<open>The identity of a runnable: a test by its id, a hook by its suite, kind and index.\<close>

datatype rref = TestRef nat | HookRef nat hook_kind nat

text \<open>What \<^verbatim>\<open>fail\<close> and \<^verbatim>\<open>checkGlobals\<close> read of a runnable.\<close>

record 'w runnable =
  rid :: rref
  rparent :: "'w suite list"
  rallowed :: "string list"

datatype event =
    HookBegin rref | HookEnd rref
  | RunBegin | RunEnd | DelayBegin | DelayEnd
  | SuiteBegin nat | SuiteEnd nat
  | TestBegin nat | TestEnd nat
  | TestFail rref thrown | TestPass nat | TestPending nat | TestRetry nat thrown

record 'w runner =
  failures :: nat
  abort :: bool
  state :: run_state
  total :: nat
  suite :: "'w suite list"
  test :: "'w test option"
  currentRunnable :: "rref option"
  events :: "event list"
  globals :: "string list"
  prevGlobalsLength :: "nat option"
  checkLeaks :: bool
  forbidPending :: bool
  dryRun :: bool
  failZero :: bool
  delay :: bool
  grep :: "string \<Rightarrow> bool"
  invert :: bool
  navigator :: bool
  tests :: "nat \<Rightarrow> 'w test list"
  pendingS :: "nat \<Rightarrow> bool"
  pending :: "rref \<Rightarrow> bool"
  rstate :: "rref \<Rightarrow> rstate"
  nextId :: nat
  world :: "'w"
  globalKeys :: "'w \<Rightarrow> string list"

definition ofTest :: "'w test \<Rightarrow> 'w runnable" where
  "ofTest t = \<lparr>rid = TestRef (tid t), rparent = tparent t, rallowed = tallowed t\<rparr>"

definition ofHook :: "'w suite list \<Rightarrow> hook_kind \<Rightarrow> nat \<Rightarrow> 'w hook \<Rightarrow> 'w runnable" where
  "ofHook s name i h =
     \<lparr>rid = HookRef (sid (hd s)) name i, rparent = s, rallowed = hallowed h\<rparr>"

text \<open>Modelled from the spec: \<^verbatim>\<open>Suite.getHooks\<close> of the missing Suite class, the
  ordered sequence of the hooks of one kind.\<close>

fun getHooks :: "hook_kind \<Rightarrow> 'w suite \<Rightarrow> 'w hook list" where
  "getHooks BeforeAll s = beforeAll s"
| "getHooks AfterAll s = afterAll s"
| "getHooks BeforeEach s = beforeEach s"
| "getHooks AfterEach s = afterEach s"

text \<open>Modelled from the spec: \<^verbatim>\<open>isPending()\<close> of the missing Runnable and Suite
  classes. A suite is pending when its flag or the flag of one of its ancestors is set
  (marking a child suite pending skips the tests below it); a runnable is pending when its
  own flag is set or its suite is pending.\<close>

definition isPendingSuite :: "'w suite list \<Rightarrow> 'w runner \<Rightarrow> bool" where
  "isPendingSuite s st = list_ex (\<lambda>x. pendingS st (sid x)) s"

definition isPending :: "'w runnable \<Rightarrow> 'w runner \<Rightarrow> bool" where
  "isPending r st = (pending st (rid r) \<or> isPendingSuite (rparent r) st)"

text \<open>\<^verbatim>\<open>Array.prototype.join\<close>.\<close>

fun joinWith :: "string \<Rightarrow> string list \<Rightarrow> string" where
  "joinWith sep [] = []"
| "joinWith sep [x] = x"
| "joinWith sep (x # y # ys) = x @ sep @ joinWith sep (y # ys)"

text \<open>Modelled from the spec: \<^verbatim>\<open>fullTitle()\<close> of the missing Test class, the titles
  from the outermost suite that is not the root down to the test, joined by spaces.\<close>

definition fullTitle :: "'w test \<Rightarrow> string" where
  "fullTitle t =
     joinWith '' '' (map stitle (filter (\<lambda>s. \<not> sroot s) (rev (tparent t))) @ [ttitle t])"

text \<open>The grep of the runner is what \<^verbatim>\<open>_grep.test\<close> answers on a title; the match of
  a test is computed as \<^verbatim>\<open>runTests\<close> and \<^verbatim>\<open>grepTotal\<close> compute it.\<close>

definition grepMatch :: "'w runner \<Rightarrow> 'w test \<Rightarrow> bool" where
  "grepMatch st t =
     (let match = grep st (fullTitle t) in if invert st then \<not> match else match)"

definition emit :: "event \<Rightarrow> 'w runner \<Rightarrow> 'w runner" where
  "emit ev st = st\<lparr>events := events st @ [ev]\<rparr>"

subsection \<open>fail\<close>

text \<open>In the stopped state the source reads \<^verbatim>\<open>err.code\<close> before anything else, which throws
  a \<^verbatim>\<open>TypeError\<close> when the error is \<^verbatim>\<open>undefined\<close> or \<^verbatim>\<open>null\<close>.\<close>

definition fail :: "'w runnable \<Rightarrow> jsvalue \<Rightarrow> bool \<Rightarrow> 'w runner \<Rightarrow> halt + 'w runner" where
  "fail r err force st =
     (if isPending r st \<and> \<not> force then Inr st
      else if state st = Stopped then
        (case err of
           Nullish ty x \<Rightarrow> Inl TypeError
         | Defined v \<Rightarrow>
             if ecode v = Some MULTIPLE_DONE then Inl (Throw v)
             else Inl (Throw (createFatalError
                     ''Test failed after root suite execution completed!'' v)))
      else
        (let st1 = st\<lparr>failures := failures st + 1,
                       rstate := (rstate st)(rid r := Failed)\<rparr>;
             err1 = (if isError err then defined err else thrown2Error err)
         in Inr (emit (TestFail (rid r) err1) st1)))"

subsection \<open>Global leaks\<close>

definition nonEnumerables :: "string list" where
  "nonEnumerables = [''setTimeout'', ''clearTimeout'', ''setInterval'', ''clearInterval'',
     ''XMLHttpRequest'', ''Date'', ''setImmediate'', ''clearImmediate'']"

definition globalProps :: "'w runner \<Rightarrow> string list" where
  "globalProps st =
     foldl (\<lambda>props g. if g \<in> set props then props else props @ [g])
       (globalKeys st (world st)) nonEnumerables"

definition isDigit :: "char \<Rightarrow> bool" where
  "isDigit c = (c \<in> set ''0123456789'')"

definition startsWithDigit :: "string \<Rightarrow> bool" where
  "startsWithDigit key = (case key of [] \<Rightarrow> False | c # _ \<Rightarrow> isDigit c)"

definition okMatches :: "string \<Rightarrow> string \<Rightarrow> bool" where
  "okMatches key ok =
     (if CHR ''*'' \<in> set ok then prefix (takeWhile (\<lambda>c. c \<noteq> CHR ''*'') ok) key
      else key = ok)"

definition filterLeaks :: "bool \<Rightarrow> string list \<Rightarrow> string list \<Rightarrow> string list" where
  "filterLeaks nav ok gs =
     filter (\<lambda>key.
       if startsWithDigit key then False
       else if nav \<and> prefix ''getInterface'' key then False
       else if nav \<and> startsWithDigit key then False
       else if prefix ''mocha-'' key then False
       else filter (okMatches key) ok = [] \<and> (\<not> nav \<or> key \<noteq> ''onerror'')) gs"

definition leakMessage :: "string list \<Rightarrow> string" where
  "leakMessage leaks =
     ''global leak(s) detected: '' @
       joinWith '', '' (map (\<lambda>e. [CHR 0x27] @ e @ [CHR 0x27]) leaks)"

definition checkGlobals :: "'w runnable \<Rightarrow> 'w runner \<Rightarrow> halt + 'w runner" where
  "checkGlobals r st =
     (if \<not> checkLeaks st then Inr st
      else
        (let ok = globals st @ rallowed r;
             gs = globalProps st
         in if prevGlobalsLength st = Some (length gs) then Inr st
            else
              (let st1 = st\<lparr>prevGlobalsLength := Some (length gs)\<rparr>;
                   leaks = filterLeaks (navigator st) ok gs;
                   st2 = st1\<lparr>globals := globals st1 @ leaks\<rparr>
               in if leaks \<noteq> [] then fail r (Defined (newError (leakMessage leaks))) False st2
                  else Inr st2)))"

subsection \<open>The listeners of the constructor\<close>

fun indexOf :: "nat \<Rightarrow> 'w test list \<Rightarrow> nat option" where
  "indexOf x [] = None"
| "indexOf x (t # ts) =
     (if tid t = x then Some 0 else map_option Suc (indexOf x ts))"

definition replaceRetried :: "'w test \<Rightarrow> 'w runner \<Rightarrow> 'w runner" where
  "replaceRetried t st =
     (case tretriedTest t of
        None \<Rightarrow> st
      | Some orig \<Rightarrow>
          (case tparent t of
             [] \<Rightarrow> st
           | p # _ \<Rightarrow>
               (case indexOf orig (tests st (sid p)) of
                  None \<Rightarrow> st
                | Some idx \<Rightarrow>
                    st\<lparr>tests := (tests st)(sid p := (tests st (sid p))[idx := t])\<rparr>)))"

definition emitTestEnd :: "'w test \<Rightarrow> 'w runner \<Rightarrow> halt + 'w runner" where
  "emitTestEnd t st = checkGlobals (ofTest t) (replaceRetried t (emit (TestEnd (tid t)) st))"

definition emitHookEnd :: "'w runnable \<Rightarrow> 'w runner \<Rightarrow> halt + 'w runner" where
  "emitHookEnd h st = checkGlobals h (emit (HookEnd (rid h)) st)"

subsection \<open>Running one hook, the hooks of a suite, the hooks of a chain of suites\<close>

text \<open>Modelled from the spec: \<^verbatim>\<open>Runnable.run\<close> executes the body and normalises what it
  does into one completion signal; a conditional skip marks the runnable pending and
  completes without an error.\<close>

definition runRunnable ::
  "rref \<Rightarrow> ('w \<Rightarrow> outcome \<times> 'w) \<Rightarrow> 'w runner \<Rightarrow> 'w runner \<times> thrown option" where
  "runRunnable r f st =
     (case f (world st) of
        (Ok, w) \<Rightarrow> (st\<lparr>world := w\<rparr>, None)
      | (Err e, w) \<Rightarrow> (st\<lparr>world := w\<rparr>, Some e)
      | (Skip, w) \<Rightarrow> (st\<lparr>world := w, pending := (pending st)(r := True)\<rparr>, None))"

text \<open>How \<^verbatim>\<open>cbHookRun\<close> ends: \<^verbatim>\<open>next(++i)\<close>, the same after \<^verbatim>\<open>hooks = []\<close>, or
  \<^verbatim>\<open>fn(err)\<close>.\<close>

datatype step = Next | NextEmpty | Stop thrown

definition setTestPending :: "'w runner \<Rightarrow> 'w runner" where
  "setTestPending st =
     (case test st of
        None \<Rightarrow> st
      | Some t \<Rightarrow> st\<lparr>pending := (pending st)(TestRef (tid t) := True)\<rparr>)"

definition markSuitePending :: "'w suite \<Rightarrow> 'w runner \<Rightarrow> 'w runner" where
  "markSuitePending s st =
     st\<lparr>pending := foldr (\<lambda>t m. m(TestRef (tid t) := True)) (tests st (sid s)) (pending st),
        pendingS := foldr (\<lambda>c m. m(sid c := True)) (suites s) (pendingS st)\<rparr>"

definition hookRun ::
  "hook_kind \<Rightarrow> 'w suite \<Rightarrow> 'w suite list \<Rightarrow> nat \<Rightarrow> 'w runner \<Rightarrow> halt + ('w runner \<times> step)"
where
  "hookRun name s p i st =
     (let h = getHooks name s ! i;
          hook = ofHook (s # p) name i h;
          st1 = emit (HookBegin (rid hook)) (st\<lparr>currentRunnable := Some (rid hook)\<rparr>);
          (st2, err) = runRunnable (rid hook) (hfn h) st1
      in if pending st2 (rid hook) then
           (case name of
              AfterEach \<Rightarrow>
                (case emitHookEnd hook (setTestPending st2) of
                   Inl x \<Rightarrow> Inl x
                 | Inr st3 \<Rightarrow> Inr (st3, Next))
            | BeforeEach \<Rightarrow>
                (case emitHookEnd hook (setTestPending st2) of
                   Inl x \<Rightarrow> Inl x
                 | Inr st3 \<Rightarrow>
                     Inr (st3\<lparr>pending := (pending st3)(rid hook := False)\<rparr>,
                          Stop (newError ''abort hookDown'')))
            | BeforeAll \<Rightarrow>
                (case emitHookEnd hook (markSuitePending s st2) of
                   Inl x \<Rightarrow> Inl x
                 | Inr st3 \<Rightarrow> Inr (st3, NextEmpty))
            | AfterAll \<Rightarrow>
                (let errForbid = createUnsupportedError ''`this.skip` forbidden''
                 in case fail hook (Defined errForbid) False
                           (st2\<lparr>pending := (pending st2)(rid hook := False)\<rparr>) of
                      Inl x \<Rightarrow> Inl x
                    | Inr st3 \<Rightarrow> Inr (st3, Stop errForbid)))
         else
           (case err of
              Some e \<Rightarrow>
                (case fail hook (Defined e) False st2 of
                   Inl x \<Rightarrow> Inl x
                 | Inr st3 \<Rightarrow> Inr (st3, Stop e))
            | None \<Rightarrow>
                (case emitHookEnd hook st2 of
                   Inl x \<Rightarrow> Inl x
                 | Inr st3 \<Rightarrow> Inr (st3, Next))))"

text \<open>The inner \<^verbatim>\<open>next(i)\<close> of \<^verbatim>\<open>hook\<close>, over the indices still to run.\<close>

fun hookNext ::
  "hook_kind \<Rightarrow> 'w suite \<Rightarrow> 'w suite list \<Rightarrow> nat list \<Rightarrow> 'w runner
     \<Rightarrow> halt + ('w runner \<times> thrown option)"
where
  "hookNext name s p [] st = Inr (st, None)"
| "hookNext name s p (i # is) st =
     (case hookRun name s p i st of
        Inl x \<Rightarrow> Inl x
      | Inr (st1, Next) \<Rightarrow> hookNext name s p is st1
      | Inr (st1, NextEmpty) \<Rightarrow> hookNext name s p [] st1
      | Inr (st1, Stop e) \<Rightarrow> Inr (st1, Some e))"

definition hook ::
  "hook_kind \<Rightarrow> 'w runner \<Rightarrow> halt + ('w runner \<times> thrown option)" where
  "hook name st =
     (if dryRun st then Inr (st, None)
      else case suite st of
             [] \<Rightarrow> Inl TypeError
           | s # p \<Rightarrow> hookNext name s p [0..<length (getHooks name s)] st)"

text \<open>The inner \<^verbatim>\<open>next(suite)\<close> of \<^verbatim>\<open>hooks\<close>. The source pops the suites off the end of
  the array, so the list here is the array reversed. The continuation receives the error
  and the suite whose hook failed.\<close>

fun hooksNext ::
  "hook_kind \<Rightarrow> 'w suite list \<Rightarrow> 'w suite list list \<Rightarrow> 'w runner
     \<Rightarrow> halt + ('w runner \<times> thrown option \<times> 'w suite list)"
where
  "hooksNext name orig [] st = Inr (st\<lparr>suite := orig\<rparr>, None, [])"
| "hooksNext name orig (s # rest) st =
     (if s = [] then Inr (st\<lparr>suite := orig\<rparr>, None, [])
      else case hook name (st\<lparr>suite := s\<rparr>) of
             Inl x \<Rightarrow> Inl x
           | Inr (st1, Some err) \<Rightarrow> Inr (st1\<lparr>suite := orig\<rparr>, Some err, suite st1)
           | Inr (st1, None) \<Rightarrow> hooksNext name orig rest st1)"

definition hooks ::
  "hook_kind \<Rightarrow> 'w suite list list \<Rightarrow> 'w runner
     \<Rightarrow> halt + ('w runner \<times> thrown option \<times> 'w suite list)" where
  "hooks name ss st = hooksNext name (suite st) (rev ss) st"

text \<open>\<^verbatim>\<open>parents()\<close>: the suites above the current one, closest first.\<close>

fun parentsOf :: "'w suite list \<Rightarrow> 'w suite list list" where
  "parentsOf [] = []"
| "parentsOf (s # p) = (if p = [] then [] else p # parentsOf p)"

definition parents :: "'w runner \<Rightarrow> halt + 'w suite list list" where
  "parents st = (if suite st = [] then Inl TypeError else Inr (parentsOf (suite st)))"

definition hookUp ::
  "hook_kind \<Rightarrow> 'w runner \<Rightarrow> halt + ('w runner \<times> thrown option \<times> 'w suite list)" where
  "hookUp name st =
     (case parents st of
        Inl x \<Rightarrow> Inl x
      | Inr ps \<Rightarrow> hooks name (rev ([suite st] @ ps)) st)"

definition hookDown ::
  "hook_kind \<Rightarrow> 'w runner \<Rightarrow> halt + ('w runner \<times> thrown option \<times> 'w suite list)" where
  "hookDown name st =
     (case parents st of
        Inl x \<Rightarrow> Inl x
      | Inr ps \<Rightarrow> hooks name ([suite st] @ ps) st)"

subsection \<open>What running hooks leaves alone\<close>

text \<open>Running hooks never assigns the current-suite pointer; \<^verbatim>\<open>hooks\<close> assigns it and
  puts it back. The termination of \<^verbatim>\<open>hookErr\<close> below rests on this.\<close>

lemma emit_suite [simp]: "suite (emit ev st) = suite st"
  by (simp add: emit_def)

lemma fail_suite: "fail r err force st = Inr st' \<Longrightarrow> suite st' = suite st"
  by (auto simp: fail_def Let_def split: if_splits jsvalue.splits)

lemma checkGlobals_suite: "checkGlobals r st = Inr st' \<Longrightarrow> suite st' = suite st"
  by (auto simp: checkGlobals_def Let_def split: if_splits dest!: fail_suite)

lemma emitHookEnd_suite: "emitHookEnd h st = Inr st' \<Longrightarrow> suite st' = suite st"
  by (auto simp: emitHookEnd_def dest!: checkGlobals_suite)

lemma runRunnable_suite: "runRunnable r f st = (st', e) \<Longrightarrow> suite st' = suite st"
  by (auto simp: runRunnable_def split: prod.splits outcome.splits)

lemma setTestPending_suite [simp]: "suite (setTestPending st) = suite st"
  by (simp add: setTestPending_def split: option.splits)

lemma markSuitePending_suite [simp]: "suite (markSuitePending s st) = suite st"
  by (simp add: markSuitePending_def)

lemma hookRun_suite: "hookRun name s p i st = Inr (st', r) \<Longrightarrow> suite st' = suite st"
  by (auto simp: hookRun_def Let_def split: prod.splits if_splits hook_kind.splits sum.splits option.splits
      dest!: emitHookEnd_suite fail_suite runRunnable_suite)

lemma hookNext_suite: "hookNext name s p is st = Inr (st', r) \<Longrightarrow> suite st' = suite st"
proof (induction "is" arbitrary: st)
  case Nil
  then show ?case by simp
next
  case (Cons i "is")
  then show ?case
    by (auto split: sum.splits step.splits dest!: hookRun_suite)
qed

lemma hook_suite: "hook name st = Inr (st', r) \<Longrightarrow> suite st' = suite st"
  by (auto simp: hook_def split: if_splits list.splits dest: hookNext_suite)

lemma hooksNext_suite:
  "hooksNext name orig ss st = Inr (st', r) \<Longrightarrow> suite st' = orig"
proof (induction ss arbitrary: st)
  case Nil
  then show ?case by auto
next
  case (Cons s ss)
  then show ?case
    by (auto split: if_splits sum.splits option.splits)
qed

lemma hooksNext_errSuite:
  "hooksNext name orig ss st = Inr (st', Some e, es) \<Longrightarrow> es \<in> set ss \<and> es \<noteq> []"
proof (induction ss arbitrary: st)
  case Nil
  then show ?case by auto
next
  case (Cons s ss)
  show ?case
  proof (cases "s = []")
    case True
    with Cons.prems show ?thesis by simp
  next
    case False
    show ?thesis
    proof (cases "hook name (st\<lparr>suite := s\<rparr>)")
      case (Inl x)
      with Cons.prems False show ?thesis by simp
    next
      case (Inr res)
      obtain st1 r where res: "res = (st1, r)" by (cases res)
      have s1: "suite st1 = s" using hook_suite Inr res by fastforce
      show ?thesis
      proof (cases r)
        case None
        with Cons.prems False Inr res have "hooksNext name orig ss st1 = Inr (st', Some e, es)"
          by simp
        from Cons.IH [OF this] show ?thesis by simp
      next
        case (Some err)
        with Cons.prems False Inr res s1 show ?thesis by auto
      qed
    qed
  qed
qed

lemma parentsOf_length: "x \<in> set (parentsOf s) \<Longrightarrow> length x < length s"
proof (induction s arbitrary: x rule: parentsOf.induct)
  case 1
  then show ?case by simp
next
  case (2 s p)
  then show ?case by (fastforce split: if_splits)
qed

lemma hookUp_errSuite:
  assumes "hookUp name st = Inr (st', Some e, es)"
  shows "es \<noteq> [] \<and> length es \<le> length (suite st)"
proof -
  from assms have ne: "suite st \<noteq> []"
    and h: "hooksNext name (suite st) (suite st # parentsOf (suite st)) st = Inr (st', Some e, es)"
    by (auto simp: hookUp_def hooks_def parents_def split: if_splits)
  from hooksNext_errSuite [OF h] have "es \<in> set (suite st # parentsOf (suite st))" "es \<noteq> []"
    by auto
  then show ?thesis using parentsOf_length [of es "suite st"] by auto
qed

subsection \<open>hookErr\<close>

text \<open>The inner \<^verbatim>\<open>hookErr\<close> of \<^verbatim>\<open>runTests\<close>: after a failed before-each or
  after-each hook of \<^verbatim>\<open>errSuite\<close>, run the after-each hooks from \<^verbatim>\<open>errSuite\<close>
  (or from its parent) upwards, again if one of them fails, and report the suite that failed
  last to the continuation of \<^verbatim>\<open>runTests\<close>.\<close>

function hookErr ::
  "'w suite list \<Rightarrow> bool \<Rightarrow> 'w runner \<Rightarrow> halt + ('w runner \<times> 'w suite list)" where
  "hookErr errSuite after st =
     (let orig = suite st in
      if after \<and> errSuite = [] then Inl TypeError
      else
        (let st1 = st\<lparr>suite := (if after then tl errSuite else errSuite)\<rparr> in
         if suite st1 \<noteq> [] then
           (case hookUp AfterEach st1 of
              Inl x \<Rightarrow> Inl x
            | Inr (st2, Some err2, errSuite2) \<Rightarrow> hookErr errSuite2 True (st2\<lparr>suite := orig\<rparr>)
            | Inr (st2, None, errSuite2) \<Rightarrow> Inr (st2\<lparr>suite := orig\<rparr>, errSuite))
         else Inr (st1\<lparr>suite := orig\<rparr>, errSuite)))"
  by pat_completeness auto
termination
proof (relation "measure (\<lambda>(errSuite, after, st). length (if after then tl errSuite else errSuite))",
    goal_cases)
  case 1
  show ?case by simp
next
  case (2 errSuite after st orig st1 res st2 r err2 errSuite2 e)
  then have "hookUp AfterEach st1 = Inr (st2, Some e, errSuite2)" by simp
  from hookUp_errSuite [OF this] have "length (tl errSuite2) < length (suite st1)"
    by (cases errSuite2) auto
  with 2 show ?case by (simp split: if_splits)
qed

declare hookErr.simps [simp del]

text \<open>The fields that running hooks and a test body never assign. The termination of
  \<^verbatim>\<open>runTests\<close> rests on \<^verbatim>\<open>self.test\<close> being among them.\<close>

definition sameConfig :: "'w runner \<Rightarrow> 'w runner \<Rightarrow> bool" where
  "sameConfig st st' \<longleftrightarrow>
     test st' = test st \<and> abort st' = abort st \<and> state st' = state st \<and>
     total st' = total st \<and> checkLeaks st' = checkLeaks st \<and>
     forbidPending st' = forbidPending st \<and> dryRun st' = dryRun st \<and>
     failZero st' = failZero st \<and> delay st' = delay st \<and> grep st' = grep st \<and>
     invert st' = invert st \<and> navigator st' = navigator st \<and> tests st' = tests st \<and>
     nextId st' = nextId st \<and> globalKeys st' = globalKeys st"

lemma sameConfig_refl [simp]: "sameConfig st st"
  by (simp add: sameConfig_def)

lemma sameConfig_trans: "sameConfig a b \<Longrightarrow> sameConfig b c \<Longrightarrow> sameConfig a c"
  by (simp add: sameConfig_def)

lemma sameConfig_suite_upd [simp]:
  "sameConfig st (st'\<lparr>suite := x\<rparr>) = sameConfig st st'"
  "sameConfig (st\<lparr>suite := x\<rparr>) st' = sameConfig st st'"
  by (simp_all add: sameConfig_def)

lemma emit_sameConfig [simp]: "sameConfig st (emit ev st)"
  by (simp add: emit_def sameConfig_def)

lemma fail_sameConfig: "fail r err force st = Inr st' \<Longrightarrow> sameConfig st st'"
  by (auto simp: fail_def Let_def sameConfig_def emit_def split: if_splits jsvalue.splits)

lemma checkGlobals_sameConfig: "checkGlobals r st = Inr st' \<Longrightarrow> sameConfig st st'"
  by (auto simp: checkGlobals_def Let_def split: if_splits dest!: fail_sameConfig)
     (auto simp: sameConfig_def)

lemma emitHookEnd_sameConfig: "emitHookEnd h st = Inr st' \<Longrightarrow> sameConfig st st'"
  by (auto simp: emitHookEnd_def dest!: checkGlobals_sameConfig)
     (auto simp: sameConfig_def emit_def)

lemma runRunnable_sameConfig: "runRunnable r f st = (st', e) \<Longrightarrow> sameConfig st st'"
  by (auto simp: runRunnable_def sameConfig_def split: prod.splits outcome.splits)

lemma setTestPending_sameConfig [simp]: "sameConfig st (setTestPending st)"
  by (simp add: setTestPending_def sameConfig_def split: option.splits)

lemma markSuitePending_sameConfig [simp]: "sameConfig st (markSuitePending s st)"
  by (simp add: markSuitePending_def sameConfig_def)

lemma hookRun_sameConfig: "hookRun name s p i st = Inr (st', r) \<Longrightarrow> sameConfig st st'"
  by (auto simp: hookRun_def Let_def split: prod.splits if_splits hook_kind.splits sum.splits option.splits
      dest!: emitHookEnd_sameConfig fail_sameConfig runRunnable_sameConfig)
     (auto simp: sameConfig_def emit_def setTestPending_def markSuitePending_def split: option.splits)

lemma hookNext_sameConfig: "hookNext name s p is st = Inr (st', r) \<Longrightarrow> sameConfig st st'"
proof (induction "is" arbitrary: st)
  case Nil
  then show ?case by simp
next
  case (Cons i "is")
  then show ?case
    by (auto split: sum.splits step.splits dest!: hookRun_sameConfig intro: sameConfig_trans)
qed

lemma hook_sameConfig: "hook name st = Inr (st', r) \<Longrightarrow> sameConfig st st'"
  by (auto simp: hook_def split: if_splits list.splits dest: hookNext_sameConfig)

lemma hooksNext_sameConfig:
  "hooksNext name orig ss st = Inr (st', r) \<Longrightarrow> sameConfig st st'"
proof (induction ss arbitrary: st)
  case Nil
  then show ?case by auto
next
  case (Cons s ss)
  show ?case
  proof (cases "s = []")
    case True
    with Cons.prems show ?thesis by auto
  next
    case False
    show ?thesis
    proof (cases "hook name (st\<lparr>suite := s\<rparr>)")
      case (Inl x)
      with Cons.prems False show ?thesis by simp
    next
      case (Inr res)
      obtain st1 e where res: "res = (st1, e)" by (cases res)
      have s1: "sameConfig st st1" using hook_sameConfig Inr res by fastforce
      show ?thesis
      proof (cases e)
        case None
        with Cons.prems False Inr res have "hooksNext name orig ss st1 = Inr (st', r)"
          by simp
        from Cons.IH [OF this] s1 show ?thesis by (rule sameConfig_trans [rotated])
      next
        case (Some err)
        with Cons.prems False Inr res s1 show ?thesis by auto
      qed
    qed
  qed
qed

lemma hookUp_sameConfig: "hookUp name st = Inr (st', r) \<Longrightarrow> sameConfig st st'"
  by (auto simp: hookUp_def hooks_def parents_def simp del: hooksNext.simps
      split: if_splits dest: hooksNext_sameConfig)

lemma hookDown_sameConfig: "hookDown name st = Inr (st', r) \<Longrightarrow> sameConfig st st'"
  by (auto simp: hookDown_def hooks_def parents_def simp del: hooksNext.simps
      split: if_splits dest: hooksNext_sameConfig)

subsection \<open>Running one test\<close>

text \<open>\<^verbatim>\<open>runTest\<close>, without \<^verbatim>\<open>asyncOnly\<close> and \<^verbatim>\<open>allowUncaught\<close>. With no current
  test the source returns without calling its continuation.\<close>

definition runTest :: "'w runner \<Rightarrow> halt + ('w runner \<times> thrown option)" where
  "runTest st =
     (if dryRun st then Inr (st, None)
      else case test st of
             None \<Rightarrow> Inl Stalled
           | Some t \<Rightarrow> Inr (runRunnable (TestRef (tid t)) (tfn t) st))"

text \<open>The block that \<^verbatim>\<open>runTests\<close> repeats for a pending test: fail it when pending
  tests are forbidden, else set its state and emit the pending event; then emit test-end.\<close>

definition reportPending :: "'w test \<Rightarrow> 'w runner \<Rightarrow> halt + 'w runner" where
  "reportPending t st =
     (case (if forbidPending st
            then fail (ofTest t) (Defined (newError ''Pending test forbidden'')) True st
            else Inr (emit (TestPending (tid t))
                        (st\<lparr>rstate := (rstate st)(TestRef (tid t) := Pending)\<rparr>))) of
        Inl x \<Rightarrow> Inl x
      | Inr st1 \<Rightarrow> emitTestEnd t st1)"

text \<open>Modelled from the spec: \<^verbatim>\<open>Test.clone()\<close> of the missing Test class, a new test
  with the title, body, suite and retry limit of this one, with its own state, linked back to
  the original test for the replacement of its slot.\<close>

definition clone :: "'w test \<Rightarrow> 'w runner \<Rightarrow> 'w test \<times> 'w runner" where
  "clone t st =
     (t\<lparr>tid := nextId st,
        tretriedTest := Some (case tretriedTest t of None \<Rightarrow> tid t | Some orig \<Rightarrow> orig)\<rparr>,
      st\<lparr>nextId := nextId st + 1,
         pending := (pending st)(TestRef (nextId st) := False),
         rstate := (rstate st)(TestRef (nextId st) := Unrun)\<rparr>)"

text \<open>The callback that \<^verbatim>\<open>runTests\<close> gives to \<^verbatim>\<open>runTest\<close>, up to its call of
  \<^verbatim>\<open>hookUp\<close>, which ends each of its branches. It returns the runner and the queue of
  tests, which a retry extends at the front.\<close>

definition testDone ::
  "'w test list \<Rightarrow> thrown option \<Rightarrow> 'w runner \<Rightarrow> halt + ('w runner \<times> 'w test list)" where
  "testDone q err st =
     (case test st of
        None \<Rightarrow> Inl TypeError
      | Some t \<Rightarrow>
          if pending st (TestRef (tid t)) then
            (case reportPending t st of
               Inl x \<Rightarrow> Inl x
             | Inr st1 \<Rightarrow> Inr (st1, q))
          else
            (case err of
               Some e \<Rightarrow>
                 (let retry = tcurrentRetry t in
                  if retry < tretries t then
                    (let (clonedTest, st1) = clone t st
                     in Inr (emit (TestRetry (tid t) e) st1,
                             clonedTest\<lparr>tcurrentRetry := retry + 1\<rparr> # q))
                  else
                    (case fail (ofTest t) (Defined e) False st of
                       Inl x \<Rightarrow> Inl x
                     | Inr st1 \<Rightarrow>
                         (case emitTestEnd t st1 of
                            Inl x \<Rightarrow> Inl x
                          | Inr st2 \<Rightarrow> Inr (st2, q))))
             | None \<Rightarrow>
                 (case emitTestEnd t (emit (TestPass (tid t))
                         (st\<lparr>rstate := (rstate st)(TestRef (tid t) := Passed)\<rparr>)) of
                    Inl x \<Rightarrow> Inl x
                  | Inr st1 \<Rightarrow> Inr (st1, q))))"

text \<open>The attempts a queue of tests can still make, the measure of \<^verbatim>\<open>runTests\<close>.\<close>

definition weight :: "'w test list \<Rightarrow> nat" where
  "weight q = (\<Sum>t\<leftarrow>q. 1 + nat (tretries t - tcurrentRetry t))"

lemma runTest_test: "runTest st = Inr (st', e) \<Longrightarrow> test st' = test st"
  by (auto simp: runTest_def sameConfig_def split: if_splits option.splits
      dest!: runRunnable_sameConfig)

lemma testDone_weight:
  "testDone q err st = Inr (st', q') \<Longrightarrow> test st = Some t \<Longrightarrow> weight q' < weight (t # q)"
  by (auto simp: testDone_def weight_def clone_def Let_def
      split: if_splits option.splits sum.splits)

subsection \<open>runTests\<close>

text \<open>The inner \<^verbatim>\<open>next(err, errSuite)\<close> of \<^verbatim>\<open>runTests\<close>; \<open>q\<close> is the local
  array \<^verbatim>\<open>tests\<close>. The result is the argument of the continuation of \<^verbatim>\<open>runTests\<close>,
  the suite whose hook failed or nothing.\<close>

function runTestsNext ::
  "'w suite \<Rightarrow> 'w test list \<Rightarrow> thrown option \<Rightarrow> 'w suite list \<Rightarrow> 'w runner
     \<Rightarrow> halt + ('w runner \<times> 'w suite list)"
where
  "runTestsNext s q err errSuite st =
     (let q1 = (if failures st \<noteq> 0 \<and> sbail s then [] else q) in
      if abort st then Inr (st, [])
      else if err \<noteq> None then hookErr errSuite True st
      else
        (case q1 of
           [] \<Rightarrow> Inr (st, [])
         | t # q2 \<Rightarrow>
             if \<not> grepMatch st t then runTestsNext s q2 None [] st
             else if isPending (ofTest t) st then
               (case reportPending t st of
                  Inl x \<Rightarrow> Inl x
                | Inr st1 \<Rightarrow> runTestsNext s q2 None [] st1)
             else
               (case hookDown BeforeEach (emit (TestBegin (tid t)) (st\<lparr>test := Some t\<rparr>)) of
                  Inl x \<Rightarrow> Inl x
                | Inr (st1, err1, errSuite1) \<Rightarrow>
                    if isPending (ofTest t) st1 then
                      (case reportPending t st1 of
                         Inl x \<Rightarrow> Inl x
                       | Inr st2 \<Rightarrow>
                           (case hookUp AfterEach
                                   (st2\<lparr>suite := (if errSuite1 \<noteq> [] then errSuite1
                                                   else suite st2)\<rparr>) of
                              Inl x \<Rightarrow> Inl x
                            | Inr (st3, e, eSuite) \<Rightarrow>
                                runTestsNext s q2 e eSuite (st3\<lparr>suite := suite st2\<rparr>)))
                    else if err1 \<noteq> None then hookErr errSuite1 False st1
                    else
                      (case runTest (st1\<lparr>currentRunnable :=
                                          map_option (\<lambda>x. TestRef (tid x)) (test st1)\<rparr>) of
                         Inl x \<Rightarrow> Inl x
                       | Inr (st2, err2) \<Rightarrow>
                           (case testDone q2 err2 st2 of
                              Inl x \<Rightarrow> Inl x
                            | Inr (st3, q3) \<Rightarrow>
                                (case hookUp AfterEach st3 of
                                   Inl x \<Rightarrow> Inl x
                                 | Inr (st4, e, eSuite) \<Rightarrow>
                                     runTestsNext s q3 e eSuite st4))))))"
  by pat_completeness auto
termination
proof (relation "measure (\<lambda>(s, q, err, errSuite, st). weight q)", goal_cases)
  case 1
  show ?case by simp
next
  case 2
  then show ?case by (auto simp: weight_def split: if_splits)
next
  case 3
  then show ?case by (auto simp: weight_def split: if_splits)
next
  case 4
  then show ?case by (auto simp: weight_def split: if_splits)
next
  case (5 s q err errSuite st q1 t q2 res st1 r err1 errSuite1 res2 st2 err2 res3 st3 q3)
  have a: "hookDown BeforeEach (emit (TestBegin (tid t)) (st\<lparr>test := Some t\<rparr>))
             = Inr (st1, err1, errSuite1)"
    using 5 by simp
  have "test st1 = Some t"
    using hookDown_sameConfig [OF a] by (simp add: sameConfig_def emit_def)
  moreover have "runTest (st1\<lparr>currentRunnable := map_option (\<lambda>x. TestRef (tid x)) (test st1)\<rparr>)
      = Inr (st2, err2)"
    using 5 by simp
  ultimately have "test st2 = Some t"
    using runTest_test by fastforce
  moreover have "testDone q2 err2 st2 = Inr (st3, q3)" using 5 by simp
  ultimately have "weight q3 < weight (t # q2)" by (rule testDone_weight [rotated])
  moreover have "q = t # q2" using 5 by (auto split: if_splits)
  ultimately show ?case by simp
qed

declare runTestsNext.simps [simp del]

definition runTests :: "'w suite \<Rightarrow> 'w runner \<Rightarrow> halt + ('w runner \<times> 'w suite list)" where
  "runTests s st = runTestsNext s (tests st (sid s)) None [] st"

subsection \<open>runSuite and run\<close>

text \<open>Modelled from the spec: \<^verbatim>\<open>Suite.eachTest\<close> of the missing Suite class, the
  depth-first enumeration of the tests under a suite.\<close>

fun eachTest :: "'w runner \<Rightarrow> 'w suite \<Rightarrow> 'w test list" where
  "eachTest st (Suite i ti b r ba aa be ae cs) = tests st i @ concat (map (eachTest st) cs)"

definition grepTotal :: "'w runner \<Rightarrow> 'w suite \<Rightarrow> nat" where
  "grepTotal st s = length (filter (grepMatch st) (eachTest st s))"

text \<open>The inner \<^verbatim>\<open>done(errSuite)\<close> of \<^verbatim>\<open>runSuite\<close>.\<close>

definition doneSuite ::
  "'w suite \<Rightarrow> 'w suite list \<Rightarrow> 'w suite list \<Rightarrow> 'w runner
     \<Rightarrow> halt + ('w runner \<times> 'w suite list)" where
  "doneSuite s p errSuite st =
     (case hook AfterAll (st\<lparr>suite := s # p, test := None\<rparr>) of
        Inl x \<Rightarrow> Inl x
      | Inr (st1, _) \<Rightarrow> Inr (emit (SuiteEnd (sid s)) st1, errSuite))"

lemma size_suites: "size_list size (suites s) < size s"
  by (cases s) simp

text \<open>\<^verbatim>\<open>runSuite\<close> and its inner \<^verbatim>\<open>next(errSuite)\<close>; \<open>cs\<close> are the child suites
  from index \<^verbatim>\<open>i\<close> on, and \<open>p\<close> is the chain of parents of the suite.\<close>

function runSuite ::
  "'w suite \<Rightarrow> 'w suite list \<Rightarrow> 'w runner \<Rightarrow> halt + ('w runner \<times> 'w suite list)"
and nextSuite ::
  "'w suite \<Rightarrow> 'w suite list \<Rightarrow> 'w suite list \<Rightarrow> 'w suite list \<Rightarrow> 'w runner
     \<Rightarrow> halt + ('w runner \<times> 'w suite list)"
where
  "runSuite s p st =
     (let n = grepTotal st s in
      if n = 0 \<or> (failures st \<noteq> 0 \<and> sbail s) then Inr (st, [])
      else
        (case hook BeforeAll (emit (SuiteBegin (sid s)) (st\<lparr>suite := s # p\<rparr>)) of
           Inl x \<Rightarrow> Inl x
         | Inr (st1, Some err) \<Rightarrow> doneSuite s p [] st1
         | Inr (st1, None) \<Rightarrow>
             (case runTests s st1 of
                Inl x \<Rightarrow> Inl x
              | Inr (st2, errSuite) \<Rightarrow> nextSuite s p (suites s) errSuite st2)))"
| "nextSuite s p cs errSuite st =
     (if errSuite \<noteq> [] then
        (if sid (hd errSuite) = sid s then doneSuite s p [] st else doneSuite s p errSuite st)
      else if abort st then doneSuite s p [] st
      else
        (case cs of
           [] \<Rightarrow> doneSuite s p [] st
         | c # rest \<Rightarrow>
             (case runSuite c (s # p) st of
                Inl x \<Rightarrow> Inl x
              | Inr (st1, errSuite1) \<Rightarrow> nextSuite s p rest errSuite1 st1)))"
  by pat_completeness auto
termination
  by (relation "measure (\<lambda>x. case x of
          Inl (s, p, st) \<Rightarrow> 2 * size s + 1
        | Inr (s, p, cs, errSuite, st) \<Rightarrow> 2 * size_list size cs)")
     (use size_suites in \<open>auto simp: less_Suc_eq_le intro: less_imp_le\<close>)

declare runSuite.simps [simp del] nextSuite.simps [simp del]

text \<open>\<^verbatim>\<open>run\<close>, from the call to the completion callback; the result is the runner and
  the failure count the callback receives. With \<^verbatim>\<open>delay\<close> set this is the run once the
  root suite has been triggered. \<^verbatim>\<open>Suite.hasOnly\<close> and \<^verbatim>\<open>Suite.filterOnly\<close> are not
  under \<^verbatim>\<open>src/\<close> and are parameters: the filter returns the pruned root suite and the
  pruned test lists.\<close>

definition run ::
  "('w suite \<Rightarrow> bool) \<Rightarrow> ('w suite \<Rightarrow> (nat \<Rightarrow> 'w test list) \<Rightarrow> 'w suite \<times> (nat \<Rightarrow> 'w test list))
     \<Rightarrow> 'w runner \<Rightarrow> halt + ('w runner \<times> nat)" where
  "run hasOnly filterOnly st =
     (case suite st of
        [] \<Rightarrow> Inl TypeError
      | rootSuite # p \<Rightarrow>
          (let st0 = (if delay st then emit DelayBegin st else st);
               (root1, ts) = (if hasOnly rootSuite then filterOnly rootSuite (tests st0)
                              else (rootSuite, tests st0));
               st1 = st0\<lparr>suite := root1 # p, tests := ts, state := Running\<rparr>;
               st2 = (if delay st1 then emit DelayEnd st1 else st1)
           in case runSuite root1 p (emit RunBegin st2) of
                Inl x \<Rightarrow> Inl x
              | Inr (st3, _) \<Rightarrow>
                  (let st4 = (if total st3 = 0 \<and> failZero st3 then st3\<lparr>failures := 1\<rparr>
                              else st3);
                       st5 = (emit RunEnd st4)\<lparr>state := Stopped\<rparr>
                   in Inr (st5, failures st5))))"

section \<open>Observations on a run\<close>

subsection \<open>What the properties below are stated with\<close>

text \<open>The events that a hook can emit, and the events of a runner that are not of this
  kind: the begin and end of suites and tests, pass, pending and retry.\<close>

fun hookEvent :: "event \<Rightarrow> bool" where
  "hookEvent (HookBegin r) = True"
| "hookEvent (HookEnd r) = True"
| "hookEvent (TestFail r e) = True"
| "hookEvent ev = False"

definition otherEvents :: "'w runner \<Rightarrow> event list" where
  "otherEvents st = filter (\<lambda>ev. \<not> hookEvent ev) (events st)"


text \<open>The pending flags of the tests, and of tests and suites together.\<close>

definition testPending :: "'w runner \<Rightarrow> nat \<Rightarrow> bool" where
  "testPending st i = pending st (TestRef i)"

definition flags :: "'w runner \<Rightarrow> (nat \<Rightarrow> bool) \<times> (nat \<Rightarrow> bool)" where
  "flags st = (testPending st, pendingS st)"

text \<open>The options and flags that nothing in a traversal assigns, and these together with the
  current suite and the current test.\<close>

definition opts ::
  "'w runner \<Rightarrow> bool \<times> run_state \<times> nat \<times> bool \<times> bool \<times> bool \<times> bool \<times> bool \<times>
     (string \<Rightarrow> bool) \<times> bool \<times> bool \<times> ('w \<Rightarrow> string list)" where
  "opts st = (abort st, state st, total st, checkLeaks st, forbidPending st, dryRun st,
     failZero st, delay st, grep st, invert st, navigator st, globalKeys st)"

definition ctl ::
  "'w runner \<Rightarrow> (bool \<times> run_state \<times> nat \<times> bool \<times> bool \<times> bool \<times> bool \<times> bool \<times>
     (string \<Rightarrow> bool) \<times> bool \<times> bool \<times> ('w \<Rightarrow> string list)) \<times> 'w suite list \<times> 'w test option"
where
  "ctl st = (opts st, suite st, test st)"



text \<open>What a finished traversal shows: the events and the failure count, and the pending
  flags of given tests.\<close>

definition outcomeOf :: "halt + ('w runner \<times> 'a) \<Rightarrow> halt + (event list \<times> nat)" where
  "outcomeOf r = (case r of Inl x \<Rightarrow> Inl x | Inr (st, _) \<Rightarrow> Inr (events st, failures st))"

definition pendingOf :: "nat list \<Rightarrow> halt + ('w runner \<times> 'a) \<Rightarrow> halt + bool list" where
  "pendingOf ids r =
     (case r of Inl x \<Rightarrow> Inl x | Inr (st, _) \<Rightarrow> Inr (map (\<lambda>i. pending st (TestRef i)) ids))"

subsection \<open>Example suites\<close>

text \<open>Bodies over a world that is a counter: one that passes, one that throws, one that
  skips, and one that throws on its first two runs.\<close>

definition bodyOk :: "nat \<Rightarrow> outcome \<times> nat" where
  "bodyOk w = (Ok, w)"

definition bodyFail :: "nat \<Rightarrow> outcome \<times> nat" where
  "bodyFail w = (Err (ErrorObj None ''boom''), w)"

definition bodySkip :: "nat \<Rightarrow> outcome \<times> nat" where
  "bodySkip w = (Skip, w)"

definition bodyFlaky :: "nat \<Rightarrow> outcome \<times> nat" where
  "bodyFlaky w = (if w < 2 then (Err (ErrorObj None ''boom''), w + 1) else (Ok, w + 1))"

definition exHook :: "(nat \<Rightarrow> outcome \<times> nat) \<Rightarrow> nat hook" where
  "exHook f = \<lparr>htitle = ''hook'', hfn = f, hallowed = []\<rparr>"

definition exTest ::
  "nat \<Rightarrow> string \<Rightarrow> nat suite list \<Rightarrow> int \<Rightarrow> (nat \<Rightarrow> outcome \<times> nat) \<Rightarrow> nat test" where
  "exTest i ti p r f =
     \<lparr>tid = i, ttitle = ti, tparent = p, tretries = r, tcurrentRetry = 0,
      tretriedTest = None, tfn = f, tallowed = []\<rparr>"

text \<open>An idle runner on a given root and given tests, with no failure, no event, every
  option off and a grep that matches every title.\<close>

definition exRunner :: "nat suite list \<Rightarrow> (nat \<Rightarrow> nat test list) \<Rightarrow> nat runner" where
  "exRunner root ts =
     \<lparr>failures = 0, abort = False, state = Idle, total = 0, suite = root,
      test = None, currentRunnable = None, events = [], globals = [],
      prevGlobalsLength = None, checkLeaks = False, forbidPending = False, dryRun = False,
      failZero = False, delay = False, grep = (\<lambda>_. True), invert = False,
      navigator = False, tests = ts, pendingS = (\<lambda>_. False), pending = (\<lambda>_. False),
      rstate = (\<lambda>_. Unrun), nextId = 100, world = 0, globalKeys = (\<lambda>_. [])\<rparr>"

text \<open>Two sibling suites under a root, all with the bail flag; the first test of the first
  suite throws.\<close>

definition bailA :: "nat suite" where
  "bailA = Suite 1 ''A'' True False [] [exHook bodyOk] [] [exHook bodyOk] []"

definition bailB :: "nat suite" where
  "bailB = Suite 2 ''B'' True False [] [exHook bodyOk] [] [exHook bodyOk] []"

definition bailRoot :: "nat suite" where
  "bailRoot = Suite 0 [] True True [] [] [] [] [bailA, bailB]"

definition bailTests :: "nat \<Rightarrow> nat test list" where
  "bailTests i =
     (if i = 1 then [exTest 10 ''a'' [bailA, bailRoot] 0 bodyFail,
                     exTest 11 ''b'' [bailA, bailRoot] 0 bodyOk]
      else if i = 2 then [exTest 12 ''c'' [bailB, bailRoot] 0 bodyOk]
      else [])"

definition bailRunner :: "nat runner" where
  "bailRunner = (exRunner [bailRoot] bailTests)\<lparr>total := 3\<rparr>"

text \<open>A suite whose before-all hook throws, with two tests.\<close>

definition baSuite :: "nat suite" where
  "baSuite = Suite 1 ''A'' False False [exHook bodyFail] [exHook bodyOk] [] [] []"

definition baRoot :: "nat suite" where
  "baRoot = Suite 0 [] False True [] [] [] [] [baSuite]"

definition baTests :: "nat \<Rightarrow> nat test list" where
  "baTests i = (if i = 1 then [exTest 10 ''a'' [baSuite, baRoot] 0 bodyOk,
                              exTest 11 ''b'' [baSuite, baRoot] 0 bodyOk] else [])"

definition baRunner :: "nat runner" where
  "baRunner = (exRunner [baRoot] baTests)\<lparr>total := 2, state := Running\<rparr>"

text \<open>A root suite with one test whose body skips; the same root with leak checking on, after
  a test has replaced the global \<^verbatim>\<open>b\<close> by \<^verbatim>\<open>leakedVar\<close>; and a root without tests
  with the fail-zero option.\<close>

definition skRoot :: "nat suite" where
  "skRoot = Suite 0 [] False True [] [] [] [] []"

definition skTests :: "nat \<Rightarrow> nat test list" where
  "skTests i = (if i = 0 then [exTest 10 ''a'' [skRoot] 0 bodySkip] else [])"

definition skRunner :: "nat runner" where
  "skRunner = (exRunner [skRoot] skTests)\<lparr>total := 1\<rparr>"

definition lkRunner :: "nat runner" where
  "lkRunner = skRunner\<lparr>checkLeaks := True,
     globalKeys := (\<lambda>w. if w = 0 then [''a'', ''b''] else [''a'', ''leakedVar'']),
     world := 1, globals := [''a'', ''b''] @ nonEnumerables,
     prevGlobalsLength := Some 10\<rparr>"

definition fzRunner :: "nat runner" where
  "fzRunner = (exRunner [skRoot] (\<lambda>_. []))\<lparr>failZero := True\<rparr>"

text \<open>A suite with hooks whose own test does not match the grep, above a child suite whose
  test matches.\<close>

definition grChild :: "nat suite" where
  "grChild = Suite 2 ''B'' False False [] [] [] [] []"

definition grSuite :: "nat suite" where
  "grSuite = Suite 1 ''A'' False False [exHook bodyOk] [exHook bodyOk] [exHook bodyOk] [] [grChild]"

definition grRoot :: "nat suite" where
  "grRoot = Suite 0 [] False True [] [] [] [] [grSuite]"

definition grTests :: "nat \<Rightarrow> nat test list" where
  "grTests i = (if i = 1 then [exTest 10 ''x'' [grSuite, grRoot] 0 bodyOk]
                else if i = 2 then [exTest 20 ''y'' [grChild, grSuite, grRoot] 0 bodyOk]
                else [])"

definition grRunner :: "nat runner" where
  "grRunner = (exRunner [grRoot] grTests)\<lparr>total := 1, grep := (\<lambda>s. s = ''A B y'')\<rparr>"

text \<open>A suite without hooks whose first test throws twice and then passes, with two retries,
  and the clone that makes its third attempt.\<close>

definition flSuite :: "nat suite" where
  "flSuite = Suite 1 ''A'' False False [] [] [] [] []"

definition flRoot :: "nat suite" where
  "flRoot = Suite 0 [] False True [] [] [] [] [flSuite]"

definition flTests :: "nat \<Rightarrow> nat test list" where
  "flTests i = (if i = 1 then [exTest 10 ''a'' [flSuite, flRoot] 2 bodyFlaky,
                              exTest 11 ''b'' [flSuite, flRoot] 0 bodyOk] else [])"

definition flRunner :: "nat runner" where
  "flRunner = (exRunner [flRoot] flTests)\<lparr>total := 2\<rparr>"

definition flClone :: "nat test" where
  "flClone = (exTest 101 ''a'' [flSuite, flRoot] 2 bodyFlaky)
     \<lparr>tcurrentRetry := 2, tretriedTest := Some 10\<rparr>"

text \<open>A suite below a root whose before-each hook throws.\<close>

definition h9Child :: "nat suite" where
  "h9Child = Suite 1 ''A'' False False [] [] [exHook bodyOk] [] []"

definition h9Root :: "nat suite" where
  "h9Root = Suite 0 [] False True [] [] [exHook bodyFail] [] [h9Child]"

definition h9Runner :: "nat runner" where
  "h9Runner = (exRunner [h9Child, h9Root] (\<lambda>_. []))\<lparr>state := Running\<rparr>"

text \<open>A suite whose before-all and after-all hooks skip.\<close>

definition saSuite :: "nat suite" where
  "saSuite = Suite 1 ''A'' False False [exHook bodySkip] [exHook bodySkip] [] [] [flSuite]"

definition saTests :: "nat \<Rightarrow> nat test list" where
  "saTests i = (if i = 1 then [exTest 10 ''a'' [saSuite, skRoot] 0 bodyOk] else [])"

definition saRunner :: "nat runner" where
  "saRunner = exRunner [saSuite, skRoot] saTests"

section \<open>Properties of the traversal\<close>



lemma otherEvents_upd [simp]:
  "otherEvents (st\<lparr>suite := x\<rparr>) = otherEvents st"
  "otherEvents (st\<lparr>test := y\<rparr>) = otherEvents st"
  "otherEvents (st\<lparr>currentRunnable := z\<rparr>) = otherEvents st"
  "otherEvents (st\<lparr>pending := v\<rparr>) = otherEvents st"
  "otherEvents (st\<lparr>pendingS := w\<rparr>) = otherEvents st"
  "otherEvents (st\<lparr>world := u\<rparr>) = otherEvents st"
  by (simp_all add: otherEvents_def)

lemma otherEvents_emit:
  "otherEvents (emit ev st) = otherEvents st @ (if hookEvent ev then [] else [ev])"
  by (simp add: otherEvents_def emit_def)

lemma fail_otherEvents: "fail r err force st = Inr st' \<Longrightarrow> otherEvents st' = otherEvents st"
  by (auto simp: fail_def Let_def otherEvents_def emit_def split: if_splits jsvalue.splits)

lemma checkGlobals_otherEvents:
  "checkGlobals r st = Inr st' \<Longrightarrow> otherEvents st' = otherEvents st"
  by (auto simp: checkGlobals_def Let_def split: if_splits dest!: fail_otherEvents)
     (auto simp: otherEvents_def)

lemma emitHookEnd_otherEvents:
  "emitHookEnd h st = Inr st' \<Longrightarrow> otherEvents st' = otherEvents st"
  by (auto simp: emitHookEnd_def otherEvents_emit dest!: checkGlobals_otherEvents)

lemma runRunnable_otherEvents:
  "runRunnable r f st = (st', e) \<Longrightarrow> otherEvents st' = otherEvents st"
  by (auto simp: runRunnable_def split: prod.splits outcome.splits)

lemma setTestPending_otherEvents [simp]: "otherEvents (setTestPending st) = otherEvents st"
  by (simp add: setTestPending_def split: option.splits)

lemma markSuitePending_otherEvents [simp]:
  "otherEvents (markSuitePending s st) = otherEvents st"
  by (simp add: markSuitePending_def otherEvents_def)

lemma hookRun_otherEvents:
  "hookRun name s p i st = Inr (st', r) \<Longrightarrow> otherEvents st' = otherEvents st"
  by (auto simp: hookRun_def Let_def otherEvents_emit
      split: prod.splits if_splits hook_kind.splits sum.splits option.splits
      dest!: emitHookEnd_otherEvents fail_otherEvents runRunnable_otherEvents)

lemma hookNext_otherEvents:
  "hookNext name s p is st = Inr (st', r) \<Longrightarrow> otherEvents st' = otherEvents st"
proof (induction "is" arbitrary: st)
  case Nil
  then show ?case by simp
next
  case (Cons i "is")
  then show ?case
    by (auto split: sum.splits step.splits dest!: hookRun_otherEvents)
qed

lemma hook_otherEvents: "hook name st = Inr (st', r) \<Longrightarrow> otherEvents st' = otherEvents st"
  by (auto simp: hook_def split: if_splits list.splits dest: hookNext_otherEvents)

lemma flags_upd [simp]:
  "flags (st\<lparr>suite := x\<rparr>) = flags st"
  "flags (st\<lparr>test := y\<rparr>) = flags st"
  "flags (st\<lparr>currentRunnable := z\<rparr>) = flags st"
  "flags (st\<lparr>events := v\<rparr>) = flags st"
  "flags (st\<lparr>world := u\<rparr>) = flags st"
  "flags (st\<lparr>pending := (pending st)(HookRef a b c := d)\<rparr>) = flags st"
  by (simp_all add: flags_def testPending_def fun_eq_iff)

lemma flags_emit [simp]: "flags (emit ev st) = flags st"
  by (simp add: emit_def)

lemma fail_flags: "fail r err force st = Inr st' \<Longrightarrow> flags st' = flags st"
  by (auto simp: fail_def Let_def flags_def testPending_def emit_def fun_eq_iff
      split: if_splits jsvalue.splits)

lemma checkGlobals_flags: "checkGlobals r st = Inr st' \<Longrightarrow> flags st' = flags st"
  by (auto simp: checkGlobals_def Let_def split: if_splits dest!: fail_flags)
     (auto simp: flags_def testPending_def fun_eq_iff)

lemma emitHookEnd_flags: "emitHookEnd h st = Inr st' \<Longrightarrow> flags st' = flags st"
  by (auto simp: emitHookEnd_def dest!: checkGlobals_flags)

lemma runRunnable_flags:
  "runRunnable (HookRef a b c) f st = (st', e) \<Longrightarrow> flags st' = flags st"
  by (auto simp: runRunnable_def flags_def testPending_def fun_eq_iff
      split: prod.splits outcome.splits)

lemma hookRun_flags:
  "hookRun name s p i st = Inr (st', r) \<Longrightarrow> name = AfterAll \<or> (name = BeforeAll \<and> r \<noteq> NextEmpty)
     \<Longrightarrow> flags st' = flags st"
  by (auto simp: hookRun_def Let_def ofHook_def
      split: prod.splits if_splits hook_kind.splits sum.splits option.splits
      dest!: emitHookEnd_flags fail_flags runRunnable_flags)

lemma hookNext_flags_AfterAll:
  "hookNext AfterAll s p is st = Inr (st', r) \<Longrightarrow> flags st' = flags st"
proof (induction "is" arbitrary: st)
  case Nil
  then show ?case by simp
next
  case (Cons i "is")
  then show ?case
    by (auto split: sum.splits step.splits dest!: hookRun_flags)
qed

lemma hookNext_flags_BeforeAll:
  "hookNext BeforeAll s p is st = Inr (st', Some e) \<Longrightarrow> flags st' = flags st"
proof (induction "is" arbitrary: st)
  case Nil
  then show ?case by simp
next
  case (Cons i "is")
  then show ?case
    by (auto split: sum.splits step.splits dest!: hookRun_flags)
qed

lemma hook_flags:
  "hook name st = Inr (st', r) \<Longrightarrow> name = AfterAll \<or> (name = BeforeAll \<and> r \<noteq> None)
     \<Longrightarrow> flags st' = flags st"
  by (auto simp: hook_def split: if_splits list.splits
      dest: hookNext_flags_BeforeAll hookNext_flags_AfterAll)

lemma hook_tests: "hook name st = Inr (st', r) \<Longrightarrow> tests st' = tests st"
  by (drule hook_sameConfig) (simp add: sameConfig_def)

lemma sameConfig_opts: "sameConfig a b \<Longrightarrow> opts b = opts a"
  by (simp add: sameConfig_def opts_def)

lemma opts_state: "opts b = opts a \<Longrightarrow> state b = state a"
  by (simp add: opts_def)

lemma opts_upd [simp]:
  "opts (st\<lparr>suite := x\<rparr>) = opts st"
  "opts (st\<lparr>test := y\<rparr>) = opts st"
  "opts (st\<lparr>currentRunnable := z\<rparr>) = opts st"
  "opts (st\<lparr>rstate := u\<rparr>) = opts st"
  "opts (st\<lparr>pending := v\<rparr>) = opts st"
  "opts (st\<lparr>nextId := n\<rparr>) = opts st"
  "opts (st\<lparr>tests := ts\<rparr>) = opts st"
  "opts (st\<lparr>events := es\<rparr>) = opts st"
  "opts (st\<lparr>failures := k\<rparr>) = opts st"
  by (simp_all add: opts_def)

lemma opts_emit [simp]: "opts (emit ev st) = opts st"
  by (simp add: emit_def)

lemma replaceRetried_opts [simp]: "opts (replaceRetried t st) = opts st"
  by (simp add: replaceRetried_def split: option.splits list.splits)

lemma replaceRetried_suite [simp]: "suite (replaceRetried t st) = suite st"
  by (simp add: replaceRetried_def split: option.splits list.splits)

lemma replaceRetried_test [simp]: "test (replaceRetried t st) = test st"
  by (simp add: replaceRetried_def split: option.splits list.splits)

lemma replaceRetried_state [simp]: "state (replaceRetried t st) = state st"
  by (simp add: replaceRetried_def split: option.splits list.splits)

lemma emit_state [simp]: "state (emit ev st) = state st"
  by (simp add: emit_def)

lemma emit_test [simp]: "test (emit ev st) = test st"
  by (simp add: emit_def)

lemma fail_ok:
  assumes "state st \<noteq> Stopped"
  obtains st' where "fail r err force st = Inr st'" "sameConfig st st'" "suite st' = suite st"
proof -
  from assms have "\<exists>st'. fail r err force st = Inr st'"
    by (auto simp: fail_def Let_def)
  then obtain st' where a: "fail r err force st = Inr st'" ..
  with fail_sameConfig [OF a] fail_suite [OF a] that show ?thesis by blast
qed

lemma checkGlobals_ok:
  assumes "state st \<noteq> Stopped"
  obtains st' where "checkGlobals r st = Inr st'" "sameConfig st st'" "suite st' = suite st"
proof -
  have "\<exists>st'. checkGlobals r st = Inr st'"
  proof (cases "checkLeaks st \<and> prevGlobalsLength st \<noteq> Some (length (globalProps st)) \<and>
      filterLeaks (navigator st) (globals st @ rallowed r) (globalProps st) \<noteq> []")
    case True
    let ?st2 = "st\<lparr>prevGlobalsLength := Some (length (globalProps st)),
      globals := globals st @ filterLeaks (navigator st) (globals st @ rallowed r) (globalProps st)\<rparr>"
    have "state ?st2 \<noteq> Stopped" using assms by simp
    then obtain st' where "fail r (Defined (newError (leakMessage
        (filterLeaks (navigator st) (globals st @ rallowed r) (globalProps st))))) False ?st2 = Inr st'"
      by (rule fail_ok)
    with True show ?thesis by (auto simp: checkGlobals_def Let_def)
  next
    case False
    then show ?thesis by (auto simp: checkGlobals_def Let_def)
  qed
  then obtain st' where a: "checkGlobals r st = Inr st'" ..
  with checkGlobals_sameConfig [OF a] checkGlobals_suite [OF a] that show ?thesis by blast
qed

lemma emitHookEnd_ok:
  assumes "state st \<noteq> Stopped"
  obtains st' where "emitHookEnd h st = Inr st'" "sameConfig st st'" "suite st' = suite st"
proof -
  have "state (emit (HookEnd (rid h)) st) \<noteq> Stopped" using assms by simp
  then obtain st' where a: "emitHookEnd h st = Inr st'"
    unfolding emitHookEnd_def by (rule checkGlobals_ok)
  with emitHookEnd_sameConfig [OF a] emitHookEnd_suite [OF a] that show ?thesis by blast
qed

lemma sameConfig_state: "sameConfig a b \<Longrightarrow> state b = state a"
  by (simp add: sameConfig_def)

lemma runRunnable_state: "runRunnable r f st = (st', e) \<Longrightarrow> state st' = state st"
  by (drule runRunnable_sameConfig) (simp add: sameConfig_def)

lemma hookRun_ok:
  assumes "state st \<noteq> Stopped"
  obtains st' r where "hookRun name s p i st = Inr (st', r)"
proof -
  let ?h = "getHooks name s ! i"
  let ?hook = "ofHook (s # p) name i ?h"
  let ?st1 = "emit (HookBegin (rid ?hook)) (st\<lparr>currentRunnable := Some (rid ?hook)\<rparr>)"
  obtain st2 err where rr: "runRunnable (rid ?hook) (hfn ?h) ?st1 = (st2, err)"
    by (cases "runRunnable (rid ?hook) (hfn ?h) ?st1")
  have s2: "state st2 \<noteq> Stopped" using runRunnable_state [OF rr] assms by simp
  have "\<exists>st' r. hookRun name s p i st = Inr (st', r)"
  proof (cases "pending st2 (rid ?hook)")
    case True
    show ?thesis
    proof (cases name)
      case BeforeAll
      have "state (markSuitePending s st2) \<noteq> Stopped" using s2 by (simp add: markSuitePending_def)
      then obtain st3 where "emitHookEnd ?hook (markSuitePending s st2) = Inr st3"
        by (rule emitHookEnd_ok)
      with True BeforeAll rr show ?thesis by (simp add: hookRun_def Let_def)
    next
      case AfterAll
      have "state (st2\<lparr>pending := (pending st2)(rid ?hook := False)\<rparr>) \<noteq> Stopped"
        using s2 by simp
      then obtain st3 where "fail ?hook (Defined (createUnsupportedError ''`this.skip` forbidden'')) False
          (st2\<lparr>pending := (pending st2)(rid ?hook := False)\<rparr>) = Inr st3"
        by (rule fail_ok)
      with True AfterAll rr show ?thesis by (simp add: hookRun_def Let_def)
    next
      case BeforeEach
      have "state (setTestPending st2) \<noteq> Stopped"
        using s2 by (simp add: setTestPending_def split: option.splits)
      then obtain st3 where "emitHookEnd ?hook (setTestPending st2) = Inr st3"
        by (rule emitHookEnd_ok)
      with True BeforeEach rr show ?thesis by (simp add: hookRun_def Let_def)
    next
      case AfterEach
      have "state (setTestPending st2) \<noteq> Stopped"
        using s2 by (simp add: setTestPending_def split: option.splits)
      then obtain st3 where "emitHookEnd ?hook (setTestPending st2) = Inr st3"
        by (rule emitHookEnd_ok)
      with True AfterEach rr show ?thesis by (simp add: hookRun_def Let_def)
    qed
  next
    case False
    show ?thesis
    proof (cases err)
      case None
      obtain st3 where "emitHookEnd ?hook st2 = Inr st3"
        using s2 by (rule emitHookEnd_ok)
      with False None rr show ?thesis by (simp add: hookRun_def Let_def)
    next
      case (Some e)
      obtain st3 where "fail ?hook (Defined e) False st2 = Inr st3"
        using s2 by (rule fail_ok)
      with False Some rr show ?thesis by (simp add: hookRun_def Let_def)
    qed
  qed
  with that show ?thesis by blast
qed

lemma hookNext_ok:
  "state st \<noteq> Stopped \<Longrightarrow> \<exists>st' r. hookNext name s p is st = Inr (st', r)"
proof (induction "is" arbitrary: st)
  case Nil
  then show ?case by simp
next
  case (Cons i "is")
  obtain st1 r1 where a: "hookRun name s p i st = Inr (st1, r1)"
    using Cons.prems by (rule hookRun_ok)
  have "state st1 \<noteq> Stopped"
    using hookRun_sameConfig [OF a] Cons.prems by (simp add: sameConfig_def)
  from Cons.IH [OF this] show ?case using a by (cases r1) auto
qed

lemma hook_ok:
  assumes "state st \<noteq> Stopped" and "dryRun st \<or> suite st \<noteq> []"
  obtains st' r where "hook name st = Inr (st', r)" "sameConfig st st'" "suite st' = suite st"
proof -
  have "\<exists>st' r. hook name st = Inr (st', r)"
    using assms hookNext_ok [OF assms(1)] by (auto simp: hook_def split: list.splits)
  then obtain st' r where a: "hook name st = Inr (st', r)" by blast
  with hook_sameConfig [OF a] hook_suite [OF a] that show ?thesis by blast
qed

lemma hooksNext_ok:
  "state st \<noteq> Stopped \<Longrightarrow> \<exists>st' r. hooksNext name orig ss st = Inr (st', r)"
proof (induction ss arbitrary: st)
  case Nil
  then show ?case by simp
next
  case (Cons s ss)
  show ?case
  proof (cases "s = []")
    case True
    then show ?thesis by simp
  next
    case False
    have "state (st\<lparr>suite := s\<rparr>) \<noteq> Stopped" using Cons.prems by simp
    moreover have "dryRun (st\<lparr>suite := s\<rparr>) \<or> suite (st\<lparr>suite := s\<rparr>) \<noteq> []"
      using False by simp
    ultimately obtain st1 r1 where a: "hook name (st\<lparr>suite := s\<rparr>) = Inr (st1, r1)"
      and b: "sameConfig (st\<lparr>suite := s\<rparr>) st1"
      by (rule hook_ok)
    have "state st1 \<noteq> Stopped" using b Cons.prems by (simp add: sameConfig_def)
    from Cons.IH [OF this] show ?thesis using a False by (cases r1) auto
  qed
qed

lemma hookUp_ok:
  assumes "state st \<noteq> Stopped" and "suite st \<noteq> []"
  obtains st' r where "hookUp name st = Inr (st', r)" "sameConfig st st'" "suite st' = suite st"
proof -
  have "\<exists>st' r. hookUp name st = Inr (st', r)"
    using assms hooksNext_ok [OF assms(1)]
    by (simp add: hookUp_def hooks_def parents_def del: hooksNext.simps)
  then obtain st' r where a: "hookUp name st = Inr (st', r)" by blast
  have "suite st' = suite st"
    using a assms(2) hooksNext_suite [of name "suite st" _ st st']
    by (simp add: hookUp_def hooks_def parents_def del: hooksNext.simps)
  with a hookUp_sameConfig [OF a] that show ?thesis by blast
qed

lemma hookDown_ok:
  assumes "state st \<noteq> Stopped" and "suite st \<noteq> []"
  obtains st' r where "hookDown name st = Inr (st', r)" "sameConfig st st'" "suite st' = suite st"
proof -
  have "\<exists>st' r. hookDown name st = Inr (st', r)"
    using assms hooksNext_ok [OF assms(1)]
    by (simp add: hookDown_def hooks_def parents_def del: hooksNext.simps)
  then obtain st' r where a: "hookDown name st = Inr (st', r)" by blast
  have "suite st' = suite st"
    using a assms(2) hooksNext_suite [of name "suite st" _ st st']
    by (simp add: hookDown_def hooks_def parents_def del: hooksNext.simps)
  with a hookDown_sameConfig [OF a] that show ?thesis by blast
qed

lemma hookErr_ok':
  "state st \<noteq> Stopped \<Longrightarrow> \<not> (after \<and> es = []) \<Longrightarrow>
     \<exists>st' r. hookErr es after st = Inr (st', r) \<and> sameConfig st st' \<and> suite st' = suite st"
proof (induction "length (if after then tl es else es)" arbitrary: es after st rule: less_induct)
  case less
  let ?st1 = "st\<lparr>suite := (if after then tl es else es)\<rparr>"
  show ?case
  proof (cases "suite ?st1 = []")
    case True
    with less.prems show ?thesis
      by (subst hookErr.simps) (simp add: Let_def sameConfig_def)
  next
    case False
    have "state ?st1 \<noteq> Stopped" using less.prems by simp
    then obtain st2 r2 where up: "hookUp AfterEach ?st1 = Inr (st2, r2)"
      and sc: "sameConfig ?st1 st2" and su: "suite st2 = suite ?st1"
      using False by (rule hookUp_ok)
    obtain err2 es2 where r2: "r2 = (err2, es2)" by (cases r2)
    show ?thesis
    proof (cases err2)
      case None
      with less.prems False up r2 sc show ?thesis
        by (subst hookErr.simps) (simp add: Let_def)
    next
      case (Some e)
      from hookUp_errSuite [OF up [unfolded r2 Some]]
      have ne: "es2 \<noteq> []" and le: "length es2 \<le> length (suite ?st1)" by auto
      have lt: "length (if True then tl es2 else es2) < length (if after then tl es else es)"
        using ne le by (cases es2) auto
      have "state (st2\<lparr>suite := suite st\<rparr>) \<noteq> Stopped"
        using sc less.prems by (simp add: sameConfig_def)
      moreover have "\<not> (True \<and> es2 = [])" using ne by simp
      ultimately obtain st' r where
        rec: "hookErr es2 True (st2\<lparr>suite := suite st\<rparr>) = Inr (st', r)"
        and sc': "sameConfig (st2\<lparr>suite := suite st\<rparr>) st'"
        and su': "suite st' = suite (st2\<lparr>suite := suite st\<rparr>)"
        using less.hyps [OF lt] by blast
      have "hookErr es after st = Inr (st', r)"
        using less.prems False up r2 Some rec
        by (subst hookErr.simps) (simp add: Let_def)
      moreover have "sameConfig st st'"
        using sc sc' by (auto intro: sameConfig_trans)
      ultimately show ?thesis using su' by simp
    qed
  qed
qed

lemma hookErr_ok:
  assumes "state st \<noteq> Stopped" and "\<not> (after \<and> es = [])"
  obtains st' r where "hookErr es after st = Inr (st', r)" "sameConfig st st'"
    "suite st' = suite st"
  using hookErr_ok' [OF assms] by blast

lemma ctl_upd [simp]:
  "ctl (st\<lparr>currentRunnable := z\<rparr>) = ctl st"
  "ctl (st\<lparr>rstate := u\<rparr>) = ctl st"
  "ctl (st\<lparr>pending := v\<rparr>) = ctl st"
  "ctl (st\<lparr>nextId := n\<rparr>) = ctl st"
  "ctl (st\<lparr>tests := ts\<rparr>) = ctl st"
  "ctl (st\<lparr>events := es\<rparr>) = ctl st"
  "ctl (st\<lparr>failures := k\<rparr>) = ctl st"
  by (simp_all add: ctl_def)

lemma ctl_emit [simp]: "ctl (emit ev st) = ctl st"
  by (simp add: emit_def)

lemma ctl_replaceRetried [simp]: "ctl (replaceRetried t st) = ctl st"
  by (simp add: ctl_def)

lemma keeps_ctl: "sameConfig a b \<Longrightarrow> suite b = suite a \<Longrightarrow> ctl b = ctl a"
  by (simp add: ctl_def opts_def sameConfig_def)

lemma ctl_state: "ctl b = ctl a \<Longrightarrow> state b = state a"
  by (simp add: ctl_def opts_def)

lemma emitTestEnd_ok:
  assumes "state st \<noteq> Stopped"
  obtains st' where "emitTestEnd t st = Inr st'" "ctl st' = ctl st"
proof -
  let ?st1 = "replaceRetried t (emit (TestEnd (tid t)) st)"
  have "state ?st1 \<noteq> Stopped" using assms by simp
  then obtain st' where a: "checkGlobals (ofTest t) ?st1 = Inr st'"
    and b: "sameConfig ?st1 st'" and c: "suite st' = suite ?st1"
    by (rule checkGlobals_ok)
  have "ctl st' = ctl st" using keeps_ctl [OF b c] by simp
  with a that show ?thesis by (simp add: emitTestEnd_def)
qed

lemma reportPending_ok:
  assumes "state st \<noteq> Stopped"
  obtains st' where "reportPending t st = Inr st'" "ctl st' = ctl st"
proof (cases "forbidPending st")
  case True
  obtain st1 where a: "fail (ofTest t) (Defined (newError ''Pending test forbidden'')) True st = Inr st1"
    and b: "sameConfig st st1" and c: "suite st1 = suite st"
    using assms by (rule fail_ok)
  have c1: "ctl st1 = ctl st" using keeps_ctl [OF b c] .
  have "state st1 \<noteq> Stopped" using ctl_state [OF c1] assms by simp
  then obtain st' where d: "emitTestEnd t st1 = Inr st'" and e: "ctl st' = ctl st1"
    by (rule emitTestEnd_ok)
  show ?thesis using that [of st'] True a d e c1 by (simp add: reportPending_def)
next
  case False
  let ?st1 = "emit (TestPending (tid t)) (st\<lparr>rstate := (rstate st)(TestRef (tid t) := Pending)\<rparr>)"
  have "state ?st1 \<noteq> Stopped" using assms by simp
  then obtain st' where d: "emitTestEnd t ?st1 = Inr st'" and e: "ctl st' = ctl ?st1"
    by (rule emitTestEnd_ok)
  show ?thesis using that [of st'] False d e by (simp add: reportPending_def)
qed

lemma runTest_ok:
  assumes "dryRun st \<or> test st \<noteq> None"
  obtains st' err where "runTest st = Inr (st', err)" "ctl st' = ctl st"
proof (cases "dryRun st")
  case True
  then show ?thesis using that [of st None] by (simp add: runTest_def)
next
  case False
  with assms obtain t where t: "test st = Some t" by auto
  obtain st' err where a: "runRunnable (TestRef (tid t)) (tfn t) st = (st', err)"
    by (cases "runRunnable (TestRef (tid t)) (tfn t) st")
  have "ctl st' = ctl st"
    using runRunnable_sameConfig [OF a] runRunnable_suite [OF a] by (rule keeps_ctl)
  then show ?thesis using that [of st' err] False t a by (simp add: runTest_def)
qed

lemma testDone_ok:
  assumes "state st \<noteq> Stopped" and "test st = Some t"
  obtains st' q' where "testDone q err st = Inr (st', q')" "ctl st' = ctl st"
    "weight q' < weight (t # q)"
proof -
  have "\<exists>st' q'. testDone q err st = Inr (st', q') \<and> ctl st' = ctl st"
  proof (cases "pending st (TestRef (tid t))")
    case True
    obtain st1 where "reportPending t st = Inr st1" "ctl st1 = ctl st"
      using assms(1) by (rule reportPending_ok)
    with True assms(2) show ?thesis by (simp add: testDone_def)
  next
    case False
    show ?thesis
    proof (cases err)
      case None
      let ?st1 = "emit (TestPass (tid t)) (st\<lparr>rstate := (rstate st)(TestRef (tid t) := Passed)\<rparr>)"
      have "state ?st1 \<noteq> Stopped" using assms by simp
      then obtain st' where "emitTestEnd t ?st1 = Inr st'" "ctl st' = ctl ?st1"
        by (rule emitTestEnd_ok)
      with False None assms(2) show ?thesis by (simp add: testDone_def)
    next
      case (Some e)
      show ?thesis
      proof (cases "tcurrentRetry t < tretries t")
        case True
        with False Some assms(2) show ?thesis
          by (simp add: testDone_def Let_def clone_def)
      next
        case nr: False
        obtain st1 where a: "fail (ofTest t) (Defined e) False st = Inr st1"
          and b: "sameConfig st st1" and c: "suite st1 = suite st"
          using assms(1) by (rule fail_ok)
        have c1: "ctl st1 = ctl st" using keeps_ctl [OF b c] .
        have "state st1 \<noteq> Stopped" using ctl_state [OF c1] assms by simp
        then obtain st' where d: "emitTestEnd t st1 = Inr st'" and e: "ctl st' = ctl st1"
          by (rule emitTestEnd_ok)
        with False Some nr assms(2) a c1 show ?thesis by (simp add: testDone_def Let_def)
      qed
    qed
  qed
  then obtain st' q' where a: "testDone q err st = Inr (st', q')" and b: "ctl st' = ctl st"
    by blast
  from testDone_weight [OF a assms(2)] a b that show ?thesis by blast
qed

lemma opts_of_ctl: "ctl b = ctl a \<Longrightarrow> opts b = opts a"
  by (simp add: ctl_def)

lemma suite_of_ctl: "ctl b = ctl a \<Longrightarrow> suite b = suite a"
  by (simp add: ctl_def)

lemma test_of_ctl: "ctl b = ctl a \<Longrightarrow> test b = test a"
  by (simp add: ctl_def)

lemma runTestsNext_ok':
  "state st \<noteq> Stopped \<Longrightarrow> suite st \<noteq> [] \<Longrightarrow> (err \<noteq> None \<longrightarrow> es \<noteq> []) \<Longrightarrow>
     \<exists>st' r. runTestsNext s q err es st = Inr (st', r) \<and> opts st' = opts st \<and>
       suite st' = suite st"
proof (induction "weight q" arbitrary: q err es st rule: less_induct)
  case less
  note run = less.prems(1) and su = less.prems(2)
  show ?case
  proof (cases "abort st")
    case True
    then show ?thesis by (subst runTestsNext.simps) (simp add: Let_def)
  next
    case na: False
    show ?thesis
    proof (cases err)
      case (Some e)
      with less.prems have "\<not> (True \<and> es = [])" by simp
      with run obtain st' r where "hookErr es True st = Inr (st', r)" "sameConfig st st'"
        "suite st' = suite st"
        by (rule hookErr_ok)
      with na Some show ?thesis
        by (subst runTestsNext.simps) (simp add: Let_def sameConfig_opts)
    next
      case None
      show ?thesis
      proof (cases "if failures st \<noteq> 0 \<and> sbail s then [] else q")
        case Nil
        with na None show ?thesis by (subst runTestsNext.simps) (simp add: Let_def)
      next
        case (Cons t q2)
        then have q: "q = t # q2" by (simp split: if_splits)
        have w2: "weight q2 < weight q" by (simp add: q weight_def)
        show ?thesis
        proof (cases "grepMatch st t")
          case False
          from less.hyps [OF w2 run su, of None "[]"]
          obtain st' r where "runTestsNext s q2 None [] st = Inr (st', r)"
            "opts st' = opts st" "suite st' = suite st" by auto
          with na None Cons False show ?thesis
            by (subst runTestsNext.simps) (simp add: Let_def)
        next
          case gm: True
          show ?thesis
          proof (cases "isPending (ofTest t) st")
            case True
            obtain st1 where rp: "reportPending t st = Inr st1" and c1: "ctl st1 = ctl st"
              using run by (rule reportPending_ok)
            have "state st1 \<noteq> Stopped" "suite st1 \<noteq> []"
              using ctl_state [OF c1] suite_of_ctl [OF c1] run su by simp_all
            from less.hyps [OF w2 this, of None "[]"]
            obtain st' r where "runTestsNext s q2 None [] st1 = Inr (st', r)"
              "opts st' = opts st1" "suite st' = suite st1" by auto
            with na None Cons gm True rp opts_of_ctl [OF c1] suite_of_ctl [OF c1]
            show ?thesis
              by (subst runTestsNext.simps) (simp add: Let_def)
          next
            case np: False
            let ?X = "emit (TestBegin (tid t)) (st\<lparr>test := Some t\<rparr>)"
            have "state ?X \<noteq> Stopped" "suite ?X \<noteq> []" using run su by simp_all
            then obtain st1 r1 where hd: "hookDown BeforeEach ?X = Inr (st1, r1)"
              and sc1: "sameConfig ?X st1" and su1: "suite st1 = suite ?X"
              by (rule hookDown_ok)
            obtain err1 es1 where r1: "r1 = (err1, es1)" by (cases r1)
            have o1: "opts st1 = opts st" using sameConfig_opts [OF sc1] by simp
            have s1: "suite st1 = suite st" using su1 by simp
            have t1: "test st1 = Some t" using sc1 by (simp add: sameConfig_def)
            have run1: "state st1 \<noteq> Stopped" using opts_state [OF o1] run by simp
            show ?thesis
            proof (cases "isPending (ofTest t) st1")
              case True
              obtain st2 where rp: "reportPending t st1 = Inr st2" and c2: "ctl st2 = ctl st1"
                using run1 by (rule reportPending_ok)
              let ?Y = "st2\<lparr>suite := (if es1 \<noteq> [] then es1 else suite st2)\<rparr>"
              have s2: "suite st2 = suite st" using suite_of_ctl [OF c2] s1 by simp
              have "state ?Y \<noteq> Stopped" using ctl_state [OF c2] run1 by simp
              moreover have "suite ?Y \<noteq> []" using s2 su by simp
              ultimately obtain st3 r3 where hu: "hookUp AfterEach ?Y = Inr (st3, r3)"
                and sc3: "sameConfig ?Y st3"
                by (rule hookUp_ok)
              obtain e eSuite where r3: "r3 = (e, eSuite)" by (cases r3)
              let ?Z = "st3\<lparr>suite := suite st2\<rparr>"
              have o3: "opts ?Z = opts st"
                using sameConfig_opts [OF sc3] opts_of_ctl [OF c2] o1 by simp
              have "state ?Z \<noteq> Stopped" using opts_state [OF o3] run by simp
              moreover have "suite ?Z \<noteq> []" using s2 su by simp
              moreover have "e \<noteq> None \<longrightarrow> eSuite \<noteq> []"
                using hookUp_errSuite [of AfterEach ?Y st3 _ eSuite] hu r3 by auto
              ultimately obtain st' r where "runTestsNext s q2 e eSuite ?Z = Inr (st', r)"
                "opts st' = opts ?Z" "suite st' = suite ?Z"
                using less.hyps [OF w2, of ?Z e eSuite] by auto
              with na None Cons gm np hd r1 True rp hu r3 o3 s2 show ?thesis
                by (subst runTestsNext.simps) (simp add: Let_def)
            next
              case np1: False
              show ?thesis
              proof (cases err1)
                case (Some e1)
                have "\<not> (False \<and> es1 = [])" by simp
                with run1 obtain st' r where "hookErr es1 False st1 = Inr (st', r)"
                  "sameConfig st1 st'" "suite st' = suite st1"
                  by (rule hookErr_ok)
                with na None Cons gm np hd r1 np1 Some o1 s1 show ?thesis
                  by (subst runTestsNext.simps) (simp add: Let_def sameConfig_opts)
              next
                case e1: None
                let ?R = "st1\<lparr>currentRunnable := map_option (\<lambda>x. TestRef (tid x)) (test st1)\<rparr>"
                have "dryRun ?R \<or> test ?R \<noteq> None" using t1 by simp
                then obtain st2 err2 where rt: "runTest ?R = Inr (st2, err2)"
                  and c2: "ctl st2 = ctl ?R"
                  by (rule runTest_ok)
                have c2': "ctl st2 = ctl st1" using c2 by simp
                have "state st2 \<noteq> Stopped" using ctl_state [OF c2'] run1 by simp
                moreover have "test st2 = Some t" using test_of_ctl [OF c2'] t1 by simp
                ultimately obtain st3 q3 where td: "testDone q2 err2 st2 = Inr (st3, q3)"
                  and c3: "ctl st3 = ctl st2" and w3: "weight q3 < weight (t # q2)"
                  by (rule testDone_ok)
                have "state st3 \<noteq> Stopped"
                  using ctl_state [OF c3] ctl_state [OF c2'] run1 by simp
                moreover have s3: "suite st3 = suite st"
                  using suite_of_ctl [OF c3] suite_of_ctl [OF c2'] s1 by simp
                then have "suite st3 \<noteq> []" using su by simp
                ultimately obtain st4 r4 where hu: "hookUp AfterEach st3 = Inr (st4, r4)"
                  and sc4: "sameConfig st3 st4" and su4: "suite st4 = suite st3"
                  by (rule hookUp_ok)
                obtain e eSuite where r4: "r4 = (e, eSuite)" by (cases r4)
                have o4: "opts st4 = opts st"
                  using sameConfig_opts [OF sc4] opts_of_ctl [OF c3] opts_of_ctl [OF c2'] o1
                  by simp
                have "state st4 \<noteq> Stopped" using opts_state [OF o4] run by simp
                moreover have "suite st4 \<noteq> []" using su4 s3 su by simp
                moreover have "e \<noteq> None \<longrightarrow> eSuite \<noteq> []"
                  using hookUp_errSuite [of AfterEach st3 st4 _ eSuite] hu r4 by auto
                moreover have "weight q3 < weight q" using w3 q by simp
                ultimately obtain st' r where "runTestsNext s q3 e eSuite st4 = Inr (st', r)"
                  "opts st' = opts st4" "suite st' = suite st4"
                  using less.hyps [of q3 st4 e eSuite] by auto
                with na None Cons gm np hd r1 np1 e1 rt td hu r4 o4 su4 s3 show ?thesis
                  by (subst runTestsNext.simps) (simp add: Let_def)
              qed
            qed
          qed
        qed
      qed
    qed
  qed
qed

lemma runTests_ok:
  assumes "state st \<noteq> Stopped" and "suite st \<noteq> []"
  obtains st' r where "runTests s st = Inr (st', r)" "opts st' = opts st"
  using runTestsNext_ok' [OF assms, of None "[]" s "tests st (sid s)"]
  by (auto simp: runTests_def)

lemma doneSuite_ok:
  assumes "state st \<noteq> Stopped"
  obtains st' where "doneSuite s p es st = Inr (st', es)" "opts st' = opts st"
proof -
  let ?X = "st\<lparr>suite := s # p, test := None\<rparr>"
  have "state ?X \<noteq> Stopped" "dryRun ?X \<or> suite ?X \<noteq> []" using assms by simp_all
  then obtain st1 r where a: "hook AfterAll ?X = Inr (st1, r)" and b: "sameConfig ?X st1"
    by (rule hook_ok)
  have "opts (emit (SuiteEnd (sid s)) st1) = opts st"
    using sameConfig_opts [OF b] by simp
  with a that show ?thesis by (simp add: doneSuite_def)
qed

lemma runSuite_nextSuite_ok:
  "(state (st :: 'w runner) \<noteq> Stopped \<longrightarrow>
      (\<exists>st' r. runSuite s p st = Inr (st', r) \<and> opts st' = opts st))"
  "(state (st2 :: 'w runner) \<noteq> Stopped \<longrightarrow>
      (\<exists>st' r. nextSuite s2 p2 cs es st2 = Inr (st', r) \<and> opts st' = opts st2))"
proof (induction s p st and s2 p2 cs es st2 rule: runSuite_nextSuite.induct)
  case (1 s p st)
  show ?case
  proof
    assume run: "state st \<noteq> Stopped"
    show "\<exists>st' r. runSuite s p st = Inr (st', r) \<and> opts st' = opts st"
    proof (cases "grepTotal st s = 0 \<or> failures st \<noteq> 0 \<and> sbail s")
      case True
      then show ?thesis by (subst runSuite.simps) (auto simp: Let_def)
    next
      case False
      let ?X = "emit (SuiteBegin (sid s)) (st\<lparr>suite := s # p\<rparr>)"
      have "state ?X \<noteq> Stopped" "dryRun ?X \<or> suite ?X \<noteq> []" using run by simp_all
      then obtain st1 r1 where hk: "hook BeforeAll ?X = Inr (st1, r1)"
        and sc1: "sameConfig ?X st1" and su1: "suite st1 = suite ?X"
        by (rule hook_ok)
      have o1: "opts st1 = opts st" using sameConfig_opts [OF sc1] by simp
      have run1: "state st1 \<noteq> Stopped" using opts_state [OF o1] run by simp
      show ?thesis
      proof (cases r1)
        case (Some e)
        obtain st' where "doneSuite s p [] st1 = Inr (st', [])" "opts st' = opts st1"
          using run1 by (rule doneSuite_ok)
        with False hk Some o1 show ?thesis
          by (subst runSuite.simps) (auto simp: Let_def)
      next
        case None
        have "suite st1 \<noteq> []" using su1 by simp
        with run1 obtain st2 r2 where rt: "runTests s st1 = Inr (st2, r2)"
          and o2: "opts st2 = opts st1"
          by (rule runTests_ok)
        have "state st2 \<noteq> Stopped" using opts_state [OF o2] run1 by simp
        with "1.IH" [OF refl False hk refl None rt refl]
        obtain st' r where "nextSuite s p (suites s) r2 st2 = Inr (st', r)" "opts st' = opts st2"
          by auto
        with False hk None rt o1 o2 show ?thesis
          by (subst runSuite.simps) (auto simp: Let_def)
      qed
    qed
  qed
next
  case (2 s p cs errSuite st)
  show ?case
  proof
    assume run: "state st \<noteq> Stopped"
    have dn: "\<And>es. \<exists>st' r. doneSuite s p es st = Inr (st', r) \<and> opts st' = opts st"
      using doneSuite_ok [OF run] by metis
    show "\<exists>st' r. nextSuite s p cs errSuite st = Inr (st', r) \<and> opts st' = opts st"
    proof (cases "errSuite \<noteq> [] \<or> abort st \<or> cs = []")
      case True
      then show ?thesis
        using dn by (subst nextSuite.simps) (auto split: list.splits)
    next
      case False
      then obtain c rest where cs: "cs = c # rest" by (cases cs) auto
      from False have a: "\<not> errSuite \<noteq> []" "\<not> abort st" by auto
      from "2.IH"(1) [OF a cs] run
      obtain st1 r1 where rs: "runSuite c (s # p) st = Inr (st1, r1)" and o1: "opts st1 = opts st"
        by auto
      have "state st1 \<noteq> Stopped" using opts_state [OF o1] run by simp
      with "2.IH"(2) [OF a cs rs refl]
      obtain st' r where "nextSuite s p rest r1 st1 = Inr (st', r)" "opts st' = opts st1"
        by auto
      with False cs rs o1 show ?thesis
        by (subst nextSuite.simps) auto
    qed
  qed
qed

lemma runSuite_ok:
  assumes "state st \<noteq> Stopped"
  obtains st' r where "runSuite s p st = Inr (st', r)" "opts st' = opts st"
  using runSuite_nextSuite_ok(1) [of st s p] assms by blast

lemma eachTest_cong: "tests st' = tests st \<Longrightarrow> eachTest st' s = eachTest st s"
proof (induction s)
  case (Suite i ti b r ba aa be ae cs)
  then have "map (eachTest st') cs = map (eachTest st) cs" by (intro map_cong) auto
  then show ?case using Suite.prems by (simp del: map_eq_conv)
qed

lemma grepTotal_cong:
  "tests st' = tests st \<Longrightarrow> grep st' = grep st \<Longrightarrow> invert st' = invert st
     \<Longrightarrow> grepTotal st' s = grepTotal st s"
proof -
  assume a: "tests st' = tests st" "grep st' = grep st" "invert st' = invert st"
  then have "grepMatch st' = grepMatch st" by (simp add: fun_eq_iff grepMatch_def)
  with eachTest_cong [OF a(1), of s] show ?thesis by (simp add: grepTotal_def)
qed

lemma run_ok:
  assumes "suite st \<noteq> []"
  obtains st' where "run hasOnly filterOnly st = Inr (st', failures st')"
    "state st' = Stopped" "events st' \<noteq> []" "last (events st') = RunEnd"
    "total st = 0 \<and> failZero st \<longrightarrow> failures st' = 1"
proof -
  from assms obtain rootSuite p where su: "suite st = rootSuite # p" by (cases "suite st") auto
  define st0 where "st0 = (if delay st then emit DelayBegin st else st)"
  define f where "f = (if hasOnly rootSuite then filterOnly rootSuite (tests st0)
                       else (rootSuite, tests st0))"
  define st1 where "st1 = st0\<lparr>suite := fst f # p, tests := snd f, state := Running\<rparr>"
  define st2 where "st2 = (if delay st1 then emit DelayEnd st1 else st1)"
  have tf: "total (emit RunBegin st2) = total st" "failZero (emit RunBegin st2) = failZero st"
    by (simp_all add: st2_def st1_def st0_def emit_def)
  have "state (emit RunBegin st2) \<noteq> Stopped"
    by (simp add: st2_def st1_def emit_def)
  then obtain st3 r where rs: "runSuite (fst f) p (emit RunBegin st2) = Inr (st3, r)"
    and o3: "opts st3 = opts (emit RunBegin st2)"
    by (rule runSuite_ok)
  have t3: "total st3 = total st" "failZero st3 = failZero st"
    using o3 tf by (simp_all add: opts_def)
  define st4 where "st4 = (if total st3 = 0 \<and> failZero st3 then st3\<lparr>failures := 1\<rparr> else st3)"
  define st5 where "st5 = (emit RunEnd st4)\<lparr>state := Stopped\<rparr>"
  have "run hasOnly filterOnly st = Inr (st5, failures st5)"
    unfolding run_def su list.case Let_def
    unfolding st0_def [symmetric] f_def [symmetric] case_prod_unfold
    unfolding st1_def [symmetric]
    unfolding st2_def [symmetric] rs
    by (simp add: st5_def st4_def)
  moreover have "state st5 = Stopped" by (simp add: st5_def)
  moreover have "events st5 \<noteq> []" "last (events st5) = RunEnd"
    by (simp_all add: st5_def emit_def)
  moreover have "total st = 0 \<and> failZero st \<longrightarrow> failures st5 = 1"
    using t3 by (simp add: st5_def st4_def emit_def)
  ultimately show ?thesis using that by blast
qed

lemma hooksNext_failed:
  "hooksNext name orig ss st = Inr (st', Some e, es) \<Longrightarrow>
     \<exists>st0 st1. suite st0 = es \<and> hook name st0 = Inr (st1, Some e) \<and> st' = st1\<lparr>suite := orig\<rparr>"
proof (induction ss arbitrary: st)
  case Nil
  then show ?case by simp
next
  case (Cons s ss)
  show ?case
  proof (cases "s = []")
    case True
    with Cons.prems show ?thesis by simp
  next
    case False
    show ?thesis
    proof (cases "hook name (st\<lparr>suite := s\<rparr>)")
      case (Inl x)
      with Cons.prems False show ?thesis by simp
    next
      case (Inr res)
      obtain st1 r where res: "res = (st1, r)" by (cases res)
      have s1: "suite st1 = s" using hook_suite Inr res by fastforce
      show ?thesis
      proof (cases r)
        case None
        with Cons.prems False Inr res have "hooksNext name orig ss st1 = Inr (st', Some e, es)"
          by simp
        from Cons.IH [OF this] show ?thesis .
      next
        case (Some err)
        with Cons.prems False Inr res s1
        have "suite (st\<lparr>suite := s\<rparr>) = es \<and> hook name (st\<lparr>suite := s\<rparr>) = Inr (st1, Some e)
            \<and> st' = st1\<lparr>suite := orig\<rparr>"
          by auto
        then show ?thesis by blast
      qed
    qed
  qed
qed










lemma replaceRetried_fields [simp]:
  "failures (replaceRetried t st) = failures st"
  "events (replaceRetried t st) = events st"
  "rstate (replaceRetried t st) = rstate st"
  "pending (replaceRetried t st) = pending st"
  "pendingS (replaceRetried t st) = pendingS st"
  "world (replaceRetried t st) = world st"
  "checkLeaks (replaceRetried t st) = checkLeaks st"
  "nextId (replaceRetried t st) = nextId st"
  by (simp_all add: replaceRetried_def split: option.splits list.splits)






text \<open>The equations that evaluate a traversal on the example suites.\<close>

lemmas eval_defs = run_def runSuite.simps nextSuite.simps runTests_def runTestsNext.simps
  hookErr.simps doneSuite_def hook_def hookRun_def hooks_def hookUp_def hookDown_def parents_def
  runRunnable_def fail_def emit_def emitHookEnd_def emitTestEnd_def checkGlobals_def
  replaceRetried_def testDone_def runTest_def reportPending_def clone_def
  grepTotal_def grepMatch_def fullTitle_def isPending_def isPendingSuite_def
  ofTest_def ofHook_def setTestPending_def markSuitePending_def Let_def
  bodyOk_def bodyFail_def bodySkip_def bodyFlaky_def exHook_def exTest_def exRunner_def

lemmas ex_defs = outcomeOf_def pendingOf_def bailRunner_def bailRoot_def bailA_def bailB_def
  bailTests_def baSuite_def baRoot_def baTests_def baRunner_def skRoot_def skTests_def
  skRunner_def grChild_def grSuite_def grRoot_def grTests_def grRunner_def flSuite_def
  flRoot_def flTests_def flRunner_def flClone_def fzRunner_def lkRunner_def
  h9Child_def h9Root_def h9Runner_def saSuite_def saTests_def saRunner_def

section \<open>The claims\<close>

text \<open>
  Claim C1, as amended. When a before-all hook of a suite fails with an ordinary error and the
  runner is not stopped, \<^verbatim>\<open>runSuite\<close> runs none of the tests of the suite and does not
  descend into its child suites: apart from the events of hooks it emits suite-begin and
  suite-end only, so no test-begin and no pending event; it marks no test and no suite
  pending and leaves the test lists alone; the after-all hooks of the suite run and suite-end
  is emitted last.
\<close>

theorem beforeAll_failure_runs_no_test:
  assumes total: "grepTotal st s \<noteq> 0" and bail: "\<not> (failures st \<noteq> 0 \<and> sbail s)"
    and running: "state st \<noteq> Stopped"
    and failed: "hook BeforeAll (emit (SuiteBegin (sid s)) (st\<lparr>suite := s # p\<rparr>))
                   = Inr (st1, Some err)"
  shows "\<exists>st2 r st'. hook AfterAll (st1\<lparr>suite := s # p, test := None\<rparr>) = Inr (st2, r) \<and>
           st' = emit (SuiteEnd (sid s)) st2 \<and> runSuite s p st = Inr (st', []) \<and>
           otherEvents st' = otherEvents st @ [SuiteBegin (sid s), SuiteEnd (sid s)] \<and>
           testPending st' = testPending st \<and> pendingS st' = pendingS st \<and>
           tests st' = tests st"
proof -
  let ?X = "emit (SuiteBegin (sid s)) (st\<lparr>suite := s # p\<rparr>)"
  let ?Y = "st1\<lparr>suite := s # p, test := None\<rparr>"
  have "state st1 = state ?X" using hook_sameConfig [OF failed] by (rule sameConfig_state)
  then have "state ?Y \<noteq> Stopped" "dryRun ?Y \<or> suite ?Y \<noteq> []" using running by simp_all
  then obtain st2 r where a: "hook AfterAll ?Y = Inr (st2, r)" by (rule hook_ok)
  have eq: "runSuite s p st = Inr (emit (SuiteEnd (sid s)) st2, [])"
    using total bail failed a
    by (subst runSuite.simps) (auto simp: Let_def doneSuite_def)
  have e1: "otherEvents st1 = otherEvents st @ [SuiteBegin (sid s)]"
    using hook_otherEvents [OF failed] by (simp add: otherEvents_emit)
  have e2: "otherEvents st2 = otherEvents st1"
    using hook_otherEvents [OF a] by simp
  have f1: "flags st1 = flags st" using hook_flags [OF failed] by simp
  have f2: "flags st2 = flags st1" using hook_flags [OF a] by simp
  have t1: "tests st1 = tests st" using hook_tests [OF failed] by (simp add: emit_def)
  have t2: "tests st2 = tests st1" using hook_tests [OF a] by simp
  let ?st' = "emit (SuiteEnd (sid s)) st2"
  have "otherEvents ?st' = otherEvents st @ [SuiteBegin (sid s), SuiteEnd (sid s)] \<and>
           testPending ?st' = testPending st \<and> pendingS ?st' = pendingS st \<and>
           tests ?st' = tests st"
    using e1 e2 f1 f2 t1 t2
    by (simp add: otherEvents_def flags_def emit_def testPending_def fun_eq_iff)
  with a eq show ?thesis by blast
qed

text \<open>The amended claim on the suite whose before-all hook throws.\<close>

theorem beforeAll_failure_runs_no_test_witness:
  "grepTotal baRunner baSuite \<noteq> 0 \<and> \<not> (failures baRunner \<noteq> 0 \<and> sbail baSuite) \<and>
   state baRunner \<noteq> Stopped \<and>
   (\<exists>st1. hook BeforeAll (emit (SuiteBegin (sid baSuite)) (baRunner\<lparr>suite := [baSuite, baRoot]\<rparr>))
            = Inr (st1, Some (ErrorObj None ''boom''))) \<and>
   (\<exists>st'. runSuite baSuite [baRoot] baRunner = Inr (st', []) \<and>
      otherEvents st' = [SuiteBegin 1, SuiteEnd 1] \<and> tests st' = tests baRunner)"
proof -
  have a: "grepTotal baRunner baSuite \<noteq> 0" "\<not> (failures baRunner \<noteq> 0 \<and> sbail baSuite)"
    "state baRunner \<noteq> Stopped" "otherEvents baRunner = []" "sid baSuite = 1"
    by (simp_all add: eval_defs ex_defs otherEvents_def)
  have "\<exists>st1. hook BeforeAll (emit (SuiteBegin (sid baSuite)) (baRunner\<lparr>suite := [baSuite, baRoot]\<rparr>))
            = Inr (st1, Some (ErrorObj None ''boom''))"
    by (simp add: eval_defs ex_defs)
  then obtain st1 where
    b: "hook BeforeAll (emit (SuiteBegin (sid baSuite)) (baRunner\<lparr>suite := baSuite # [baRoot]\<rparr>))
            = Inr (st1, Some (ErrorObj None ''boom''))"
    by auto
  from beforeAll_failure_runs_no_test [OF a(1-3) b] a(4,5)
  have "\<exists>st'. runSuite baSuite [baRoot] baRunner = Inr (st', []) \<and>
      otherEvents st' = [SuiteBegin 1, SuiteEnd 1] \<and> tests st' = tests baRunner"
    by auto
  with a(1-3) b show ?thesis by auto
qed

text \<open>Claim C1 as stated fails there: the suite has two tests, its before-all hook throws,
  and the run of the suite emits no pending event and marks neither test pending.\<close>

theorem beforeAll_failure_marks_nothing_pending:
  "map tid (tests baRunner 1) = [10, 11] \<and>
   outcomeOf (runSuite baSuite [baRoot] baRunner) =
     Inr ([SuiteBegin 1, HookBegin (HookRef 1 BeforeAll 0),
           TestFail (HookRef 1 BeforeAll 0) (ErrorObj None ''boom''),
           HookBegin (HookRef 1 AfterAll 0), HookEnd (HookRef 1 AfterAll 0),
           SuiteEnd 1], 1) \<and>
   pendingOf [10, 11] (runSuite baSuite [baRoot] baRunner) = Inr [False, False]"
  by (simp add: eval_defs ex_defs)





text \<open>
  Claim C4, as amended. A conditional skip raised in an after-all hook is rejected: the hook
  fails with an unsupported-operation error, which is counted as a failure, and its pending
  flag is cleared. A conditional skip raised in the body of a test marks the test pending
  without a failure (when pending tests are not forbidden), and one raised in a before-all
  hook marks the tests and the child suites of the suite pending without a failure.
\<close>

theorem skip_rejected_only_in_afterAll:
  "(fst (hfn (afterAll s ! i) (world st)) = Skip \<and> state st \<noteq> Stopped \<and>
      \<not> isPendingSuite (s # p) st \<longrightarrow>
      (\<exists>st'. hookRun AfterAll s p i st =
                Inr (st', Stop (createUnsupportedError ''`this.skip` forbidden'')) \<and>
         failures st' = failures st + 1 \<and>
         rstate st' (HookRef (sid s) AfterAll i) = Failed \<and>
         \<not> pending st' (HookRef (sid s) AfterAll i) \<and>
         events st' = events st @ [HookBegin (HookRef (sid s) AfterAll i),
            TestFail (HookRef (sid s) AfterAll i)
              (createUnsupportedError ''`this.skip` forbidden'')])) \<and>
   (fst (tfn t (world st)) = Skip \<and> test st = Some t \<and> \<not> dryRun st \<and>
      \<not> forbidPending st \<and> \<not> checkLeaks st \<longrightarrow>
      (\<exists>st1 st2. runTest st = Inr (st1, None) \<and> testDone q None st1 = Inr (st2, q) \<and>
         failures st2 = failures st \<and> rstate st2 (TestRef (tid t)) = Pending \<and>
         pending st2 (TestRef (tid t)) \<and>
         events st2 = events st @ [TestPending (tid t), TestEnd (tid t)])) \<and>
   (fst (hfn (beforeAll s ! i) (world st)) = Skip \<and> \<not> checkLeaks st \<longrightarrow>
      (\<exists>st'. hookRun BeforeAll s p i st = Inr (st', NextEmpty) \<and>
         failures st' = failures st \<and>
         (\<forall>x\<in>set (tests st (sid s)). pending st' (TestRef (tid x))) \<and>
         (\<forall>c\<in>set (suites s). pendingS st' (sid c)) \<and>
         events st' = events st @ [HookBegin (HookRef (sid s) BeforeAll i),
            HookEnd (HookRef (sid s) BeforeAll i)]))"
proof (intro conjI impI)
  assume a: "fst (hfn (afterAll s ! i) (world st)) = Skip \<and> state st \<noteq> Stopped \<and>
      \<not> isPendingSuite (s # p) st"
  then obtain w where w: "hfn (afterAll s ! i) (world st) = (Skip, w)"
    by (cases "hfn (afterAll s ! i) (world st)") auto
  show "\<exists>st'. hookRun AfterAll s p i st =
                Inr (st', Stop (createUnsupportedError ''`this.skip` forbidden'')) \<and>
         failures st' = failures st + 1 \<and>
         rstate st' (HookRef (sid s) AfterAll i) = Failed \<and>
         \<not> pending st' (HookRef (sid s) AfterAll i) \<and>
         events st' = events st @ [HookBegin (HookRef (sid s) AfterAll i),
            TestFail (HookRef (sid s) AfterAll i)
              (createUnsupportedError ''`this.skip` forbidden'')]"
    using a w
    by (simp add: hookRun_def Let_def ofHook_def runRunnable_def emit_def fail_def
        isPending_def isPendingSuite_def createUnsupportedError_def)
next
  assume a: "fst (tfn t (world st)) = Skip \<and> test st = Some t \<and> \<not> dryRun st \<and>
      \<not> forbidPending st \<and> \<not> checkLeaks st"
  then obtain w where w: "tfn t (world st) = (Skip, w)"
    by (cases "tfn t (world st)") auto
  show "\<exists>st1 st2. runTest st = Inr (st1, None) \<and> testDone q None st1 = Inr (st2, q) \<and>
         failures st2 = failures st \<and> rstate st2 (TestRef (tid t)) = Pending \<and>
         pending st2 (TestRef (tid t)) \<and>
         events st2 = events st @ [TestPending (tid t), TestEnd (tid t)]"
    using a w
    by (simp add: runTest_def runRunnable_def testDone_def reportPending_def emitTestEnd_def
        checkGlobals_def emit_def)
next
  assume a: "fst (hfn (beforeAll s ! i) (world st)) = Skip \<and> \<not> checkLeaks st"
  then obtain w where w: "hfn (beforeAll s ! i) (world st) = (Skip, w)"
    by (cases "hfn (beforeAll s ! i) (world st)") auto
  have m: "\<forall>x\<in>set ts. (foldr (\<lambda>t m. m(TestRef (tid t) := True)) ts f) (TestRef (tid x))"
    for ts :: "'a test list" and f
    by (induction ts) auto
  have n: "\<forall>c\<in>set cs. (foldr (\<lambda>c m. m(sid c := True)) cs f) (sid c)"
    for cs :: "'a suite list" and f
    by (induction cs) auto
  show "\<exists>st'. hookRun BeforeAll s p i st = Inr (st', NextEmpty) \<and>
         failures st' = failures st \<and>
         (\<forall>x\<in>set (tests st (sid s)). pending st' (TestRef (tid x))) \<and>
         (\<forall>c\<in>set (suites s). pendingS st' (sid c)) \<and>
         events st' = events st @ [HookBegin (HookRef (sid s) BeforeAll i),
            HookEnd (HookRef (sid s) BeforeAll i)]"
    using a w m n
    by (simp add: hookRun_def Let_def ofHook_def runRunnable_def emit_def emitHookEnd_def
        checkGlobals_def markSuitePending_def)
qed

text \<open>The amended claim on a suite whose before-all and after-all hooks skip and on a test
  whose body skips.\<close>

theorem skip_rejected_only_in_afterAll_witness:
  "(\<exists>st'. hookRun AfterAll saSuite [skRoot] 0 saRunner =
            Inr (st', Stop (createUnsupportedError ''`this.skip` forbidden'')) \<and>
      failures st' = 1 \<and> rstate st' (HookRef 1 AfterAll 0) = Failed) \<and>
   (\<exists>st1 st2. runTest (skRunner\<lparr>test := Some (exTest 10 ''a'' [skRoot] 0 bodySkip)\<rparr>)
                = Inr (st1, None) \<and>
      testDone [] None st1 = Inr (st2, []) \<and> failures st2 = 0 \<and>
      rstate st2 (TestRef 10) = Pending \<and> events st2 = [TestPending 10, TestEnd 10]) \<and>
   (\<exists>st'. hookRun BeforeAll saSuite [skRoot] 0 saRunner = Inr (st', NextEmpty) \<and>
      failures st' = 0 \<and> pending st' (TestRef 10) \<and> pendingS st' 1)"
proof -
  let ?t = "exTest 10 ''a'' [skRoot] 0 bodySkip"
  let ?st = "skRunner\<lparr>test := Some ?t\<rparr>"
  have a: "fst (hfn (afterAll saSuite ! 0) (world saRunner)) = Skip \<and>
      state saRunner \<noteq> Stopped \<and> \<not> isPendingSuite (saSuite # [skRoot]) saRunner"
    and b: "fst (tfn ?t (world ?st)) = Skip \<and> test ?st = Some ?t \<and> \<not> dryRun ?st \<and>
      \<not> forbidPending ?st \<and> \<not> checkLeaks ?st"
    and c: "fst (hfn (beforeAll saSuite ! 0) (world saRunner)) = Skip \<and> \<not> checkLeaks saRunner"
    and d: "sid saSuite = 1" "failures saRunner = 0" "events saRunner = []" "tid ?t = 10"
      "failures ?st = 0" "events ?st = []" "tests saRunner 1 = [exTest 10 ''a'' [saSuite, skRoot] 0 bodyOk]"
      "suites saSuite = [flSuite]" "sid flSuite = 1"
    by (simp_all add: saSuite_def saRunner_def saTests_def skRunner_def exRunner_def exHook_def
        exTest_def bodySkip_def isPendingSuite_def flSuite_def)
  note t = skip_rejected_only_in_afterAll [where s = saSuite and i = 0 and st = saRunner
      and p = "[skRoot]"]
  note u = skip_rejected_only_in_afterAll [where t = ?t and st = ?st and q = "[]"]
  from t [THEN conjunct1, rule_format, OF a]
    u [THEN conjunct2, THEN conjunct1, rule_format, OF b]
    t [THEN conjunct2, THEN conjunct2, rule_format, OF c] d
  show ?thesis by (auto simp: exTest_def)
qed

text \<open>Claim C4 as stated fails for the body of a test: the run of a root suite whose only test
  skips reports the test pending, with no failure.\<close>

theorem skip_in_test_body_is_pending:
  "outcomeOf (run (\<lambda>s. False) (\<lambda>s ts. (s, ts)) skRunner) =
     Inr ([RunBegin, SuiteBegin 0, TestBegin 10, TestPending 10, TestEnd 10,
           SuiteEnd 0, RunEnd], 0)"
  by (simp add: eval_defs ex_defs)



text \<open>Claim C5 as stated fails for \<^verbatim>\<open>undefined\<close>: on a stopped runner \<^verbatim>\<open>fail\<close> throws a
  \<^verbatim>\<open>TypeError\<close>, not a fatal error, although the test is not pending.\<close>

theorem fail_undefined_after_stop:
  "state (skRunner\<lparr>state := Stopped\<rparr>) = Stopped \<and>
   \<not> isPending (ofTest (exTest 10 ''a'' [skRoot] 0 bodyOk)) (skRunner\<lparr>state := Stopped\<rparr>) \<and>
   fail (ofTest (exTest 10 ''a'' [skRoot] 0 bodyOk)) (Nullish ''undefined'' ''undefined'') False
     (skRunner\<lparr>state := Stopped\<rparr>) = Inl TypeError \<and>
   fail (ofTest (exTest 10 ''a'' [skRoot] 0 bodyOk)) (Nullish ''undefined'' ''undefined'') False
     (skRunner\<lparr>state := Stopped\<rparr>)
     \<noteq> Inl (Throw (createFatalError ''Test failed after root suite execution completed!''
                      (NonError None ''undefined'' ''undefined'')))"
  by (simp add: fail_def isPending_def isPendingSuite_def ofTest_def exTest_def exRunner_def
      skRunner_def skRoot_def)




text \<open>
  Claim C7. When the total of the runner is zero and the fail-zero option is set, \<^verbatim>\<open>run\<close>
  completes and the completion callback receives the failure count 1; when the root suite has
  no matching test, nothing is emitted but run-begin and run-end.
\<close>

theorem failZero_one_failure:
  assumes "suite st \<noteq> []" and "total st = 0" and "failZero st"
  shows "\<exists>st'. run hasOnly filterOnly st = Inr (st', 1) \<and> failures st' = 1 \<and>
           state st' = Stopped \<and> last (events st') = RunEnd \<and>
           (\<not> hasOnly (hd (suite st)) \<and> grepTotal st (hd (suite st)) = 0 \<and> \<not> delay st
              \<longrightarrow> events st' = events st @ [RunBegin, RunEnd])"
proof -
  obtain st' where a: "run hasOnly filterOnly st = Inr (st', failures st')"
    and b: "state st' = Stopped" "last (events st') = RunEnd"
      "total st = 0 \<and> failZero st \<longrightarrow> failures st' = 1"
    using assms(1) by (rule run_ok)
  have f: "failures st' = 1" using b assms by simp
  have "events st' = events st @ [RunBegin, RunEnd]"
    if h: "\<not> hasOnly (hd (suite st))" "grepTotal st (hd (suite st)) = 0" "\<not> delay st"
  proof -
    from assms(1) obtain rootSuite p where su: "suite st = rootSuite # p"
      by (cases "suite st") auto
    have g: "grepTotal (emit RunBegin (st\<lparr>suite := rootSuite # p, tests := tests st,
                 state := Running\<rparr>)) rootSuite = grepTotal st rootSuite"
      by (rule grepTotal_cong) (simp_all add: emit_def)
    show ?thesis
      using a su h assms(2,3) g
      by (auto simp: run_def Let_def runSuite.simps [of rootSuite] emit_def)
  qed
  with a f b show ?thesis by auto
qed

text \<open>Claim C7 on a root suite without tests.\<close>

theorem failZero_one_failure_witness:
  "suite fzRunner \<noteq> [] \<and> total fzRunner = 0 \<and> failZero fzRunner \<and>
   outcomeOf (run (\<lambda>s. False) (\<lambda>s ts. (s, ts)) fzRunner) = Inr ([RunBegin, RunEnd], 1)"
proof -
  have a: "suite fzRunner \<noteq> []" "total fzRunner = 0" "failZero fzRunner"
    "\<not> delay fzRunner" "grepTotal fzRunner (hd (suite fzRunner)) = 0" "events fzRunner = []"
    by (simp_all add: fzRunner_def exRunner_def grepTotal_def skRoot_def)
  from failZero_one_failure [OF a(1-3), of "\<lambda>s. False" "\<lambda>s ts. (s, ts)"] a(4-6)
  show ?thesis using a(1-3) by (auto simp: outcomeOf_def)
qed



text \<open>
  Claim C9. When \<^verbatim>\<open>hooks\<close> calls its continuation, the current-suite pointer is the one it
  had on entry, both after all hooks have completed and after a hook has failed; in that case
  the continuation receives the suite whose hook failed.
\<close>

theorem hooks_restores_suite_pointer:
  assumes "hooks name ss st = Inr (st', err, errSuite)"
  shows "suite st' = suite st \<and>
         (err \<noteq> None \<longrightarrow> errSuite \<in> set ss \<and> errSuite \<noteq> [] \<and>
            (\<exists>st0 st1. suite st0 = errSuite \<and> hook name st0 = Inr (st1, err)))"
proof -
  have a: "hooksNext name (suite st) (rev ss) st = Inr (st', err, errSuite)"
    using assms by (simp add: hooks_def)
  have "suite st' = suite st" using hooksNext_suite [OF a] .
  moreover have "errSuite \<in> set ss \<and> errSuite \<noteq> [] \<and>
            (\<exists>st0 st1. suite st0 = errSuite \<and> hook name st0 = Inr (st1, err))"
    if "err \<noteq> None"
  proof -
    from that obtain e where e: "err = Some e" by auto
    from hooksNext_errSuite [OF a [unfolded e]] hooksNext_failed [OF a [unfolded e]] e
    show ?thesis by auto
  qed
  ultimately show ?thesis by blast
qed

text \<open>Claim C9 on a before-each hook of the root that throws.\<close>

theorem hooks_restores_suite_pointer_witness:
  "\<exists>st'. hooks BeforeEach [[h9Child, h9Root], [h9Root]] h9Runner
            = Inr (st', Some (ErrorObj None ''boom''), [h9Root]) \<and>
     suite st' = [h9Child, h9Root] \<and> failures st' = 1"
proof -
  have "\<exists>st'. hooks BeforeEach [[h9Child, h9Root], [h9Root]] h9Runner
            = Inr (st', Some (ErrorObj None ''boom''), [h9Root]) \<and> failures st' = 1"
    by (simp add: eval_defs h9Runner_def h9Root_def h9Child_def)
  then obtain st' where h: "hooks BeforeEach [[h9Child, h9Root], [h9Root]] h9Runner
            = Inr (st', Some (ErrorObj None ''boom''), [h9Root])" and f: "failures st' = 1"
    by blast
  from hooks_restores_suite_pointer [OF h] have "suite st' = suite h9Runner" by simp
  then have s: "suite st' = [h9Child, h9Root]" by (simp add: h9Runner_def exRunner_def)
  show ?thesis
    apply (rule exI [where x = st'])
    using h f s by simp
qed

text \<open>
  Claim C10. With leak checking on, \<^verbatim>\<open>checkGlobals\<close> does nothing when the number of
  global names equals the number recorded at the previous check, whatever the names are;
  it changes the runner, or throws, only when the two numbers differ.
\<close>

theorem checkGlobals_compares_counts:
  "(checkLeaks st \<and> prevGlobalsLength st = Some (length (globalProps st))
      \<longrightarrow> checkGlobals r st = Inr st) \<and>
   (checkGlobals r st \<noteq> Inr st
      \<longrightarrow> checkLeaks st \<and> prevGlobalsLength st \<noteq> Some (length (globalProps st)))"
  by (auto simp: checkGlobals_def Let_def)

text \<open>Claim C10 after a test has replaced one global name by another: the new name would
  be reported as a leak, and \<^verbatim>\<open>checkGlobals\<close> leaves the runner as it is.\<close>

theorem checkGlobals_compares_counts_witness:
  "checkLeaks lkRunner \<and> prevGlobalsLength lkRunner = Some (length (globalProps lkRunner)) \<and>
   filterLeaks (navigator lkRunner) (globals lkRunner) (globalProps lkRunner) = [''leakedVar''] \<and>
   checkGlobals (ofTest (exTest 10 ''a'' [skRoot] 0 bodyOk)) lkRunner = Inr lkRunner"
proof -
  have a: "checkLeaks lkRunner"
    and b: "prevGlobalsLength lkRunner = Some (length (globalProps lkRunner))"
    by (simp_all add: lkRunner_def globalProps_def nonEnumerables_def skRunner_def exRunner_def)
  have c: "filterLeaks (navigator lkRunner) (globals lkRunner) (globalProps lkRunner)
      = [''leakedVar'']"
    by (simp add: lkRunner_def globalProps_def nonEnumerables_def skRunner_def exRunner_def
        filterLeaks_def startsWithDigit_def isDigit_def okMatches_def)
  from checkGlobals_compares_counts [of lkRunner "ofTest (exTest 10 ''a'' [skRoot] 0 bodyOk)"]
    a b c show ?thesis by simp
qed

end
